theory Spec2Isabelle
  imports Main "HOL-Library.AList"
begin

section \<open>The address book of a Dai Stablecoin System deployment\<close>

text \<open>
  A shallow embedding of \<^verbatim>\<open>pymaker/deployment.py\<close>, class \<^verbatim>\<open>DssDeployment\<close>
  and its nested class \<^verbatim>\<open>Config\<close>.

  Modelling decisions.
  \<^item> A Python \<^verbatim>\<open>str\<close> is a \<^typ>\<open>string\<close>; the strings are taken to be ASCII, so the
    regular-expression class \<^verbatim>\<open>\w\<close> is the letters, the digits and the underscore.
  \<^item> A Python \<^verbatim>\<open>dict\<close> is an association list in insertion order; an assignment
    \<^verbatim>\<open>d[k] = v\<close> is \<^const>\<open>AList.update\<close>, which overwrites in place or appends, and a
    read \<^verbatim>\<open>d[k]\<close> raises \<^verbatim>\<open>KeyError\<close> when the key is absent.
  \<^item> \<^verbatim>\<open>json.dumps\<close> and \<^verbatim>\<open>json.loads\<close> are library code: the JSON text of a
    dict from strings to strings is identified with that dict.
  \<^item> A raised exception is the \<open>Inl\<close> branch of a sum.
\<close>

subsection \<open>Strings and regular expressions\<close>

definition is_word :: "char \<Rightarrow> bool" where
  "is_word c = (let n = (of_char c :: nat) in
     (48 \<le> n \<and> n \<le> 57) \<or> (65 \<le> n \<and> n \<le> 90) \<or> (97 \<le> n \<and> n \<le> 122) \<or> n = 95)"

text \<open>\<^verbatim>\<open>s.replace(a, b)\<close> for one-character \<^verbatim>\<open>a\<close> and \<^verbatim>\<open>b\<close>.\<close>

definition replace :: "char \<Rightarrow> char \<Rightarrow> string \<Rightarrow> string" where
  "replace a b s = map (\<lambda>c. if c = a then b else c) s"

definition startswith :: "string \<Rightarrow> string \<Rightarrow> bool" where
  "startswith s p = (take (length p) s = p)"

text \<open>
  The tail \<^verbatim>\<open>((\w+)_\w+)\<close> of the first pattern, matched at the start of \<open>s\<close>. The greedy
  \<^verbatim>\<open>(\w+)\<close> first takes the whole run of word characters and gives characters back one
  at a time; \<open>match_sym s j\<close> tries the lengths \<open>j\<close>, \<open>j - 1\<close>, ..., \<open>1\<close> for group 2.
  A length fits when an underscore and then at least one word character follow.
  The result is (group 1, group 2).
\<close>

fun match_sym :: "string \<Rightarrow> nat \<Rightarrow> (string \<times> string) option" where
  "match_sym s 0 = None"
| "match_sym s (Suc j) =
     (case drop (Suc j) s of
        [] \<Rightarrow> match_sym s j
      | c # t \<Rightarrow>
          if c = CHR ''_'' \<and> takeWhile is_word t \<noteq> []
          then Some (take (Suc j) s @ c # takeWhile is_word t, take (Suc j) s)
          else match_sym s j)"

text \<open>
  A length \<open>k\<close> for group 2 fits in \<open>s\<close>: an underscore stands at position \<open>k\<close> and a
  word character follows it.
\<close>

definition hit :: "string \<Rightarrow> nat \<Rightarrow> bool" where
  "hit s k = (k < length s \<and> s ! k = CHR ''_'' \<and> takeWhile is_word (drop (Suc k) s) \<noteq> [])"

text \<open>\<^verbatim>\<open>MCD_FLIP_((\w+)_\w+)\<close> matched at the start of \<open>s\<close>.\<close>

definition match_flip_sym :: "string \<Rightarrow> (string \<times> string) option" where
  "match_flip_sym s =
     (if startswith s ''MCD_FLIP_''
      then match_sym (drop 9 s) (length (takeWhile is_word (drop 9 s)))
      else None)"

text \<open>\<^verbatim>\<open>re.search(r'MCD_FLIP_((\w+)_\w+)', key)\<close>: the leftmost position with a match.\<close>

fun search_flip_sym :: "string \<Rightarrow> (string \<times> string) option" where
  "search_flip_sym [] = None"
| "search_flip_sym (c # cs) =
     (case match_flip_sym (c # cs) of
        Some r \<Rightarrow> Some r
      | None \<Rightarrow> search_flip_sym cs)"

text \<open>\<^verbatim>\<open>MCD_FLIP_(\w+)\<close> matched at the start of \<open>s\<close>; the result is group 1.\<close>

definition match_flip :: "string \<Rightarrow> string option" where
  "match_flip s =
     (if startswith s ''MCD_FLIP_'' \<and> takeWhile is_word (drop 9 s) \<noteq> []
      then Some (takeWhile is_word (drop 9 s))
      else None)"

fun search_flip :: "string \<Rightarrow> string option" where
  "search_flip [] = None"
| "search_flip (c # cs) =
     (case match_flip (c # cs) of
        Some r \<Rightarrow> Some r
      | None \<Rightarrow> search_flip cs)"

text \<open>
  \<^verbatim>\<open>re.search(r'(\w+)(?:-\w+)?', name)\<close>, group 1: the first run of word characters
  of the name; \<open>None\<close> when the name has no word character.
\<close>

fun search_symbol :: "string \<Rightarrow> string option" where
  "search_symbol [] = None"
| "search_symbol (c # cs) =
     (if is_word c then Some (takeWhile is_word (c # cs)) else search_symbol cs)"

subsection \<open>Contract handles\<close>

text \<open>
  Modelled from the spec: the contract classes of the imported modules and
  \<^verbatim>\<open>pymaker.Address\<close> are not part of the source given. A handle is a typed proxy
  for an address; an address is the string the address book holds.
\<close>

datatype contract_class =
    DSPause | Vat | Vow | Jug | Cat | Flapper | Flopper | Flipper | Pot
  | DSToken | DSEthToken | DaiJoin | GemJoin | GemJoin5
  | Spotter | DSChief | ShutdownModule | End | ProxyRegistry | DssProxyActionsDsr
  | CdpManager | DsrManager | DSValue | OSM | Univ2LpOSM

record handle =
  cls :: contract_class
  address :: string

definition new :: "contract_class \<Rightarrow> string \<Rightarrow> handle" where
  "new k a = \<lparr>cls = k, address = a\<rparr>"

text \<open>
  Modelled from the spec: \<^verbatim>\<open>pymaker.dss.Collateral\<close> and \<^verbatim>\<open>Ilk\<close> are not part of
  the source given. A collateral groups the ilk (its name) with the gem, adapter, flipper
  and price-feed handles; the price feed may be \<^verbatim>\<open>None\<close>.
\<close>

record Collateral =
  ilk :: string
  gem :: handle
  adapter :: handle
  flipper :: handle
  pip :: "handle option"

record Web3 =
  net_version :: string

type_synonym conf = "(string \<times> string) list"

datatype error = KeyError string | AttributeError | FileNotFoundError string

subsection \<open>\<^verbatim>\<open>DssDeployment.Config\<close>\<close>

record Config =
  pause :: handle
  vat :: handle
  vow :: handle
  jug :: handle
  cat :: handle
  flapper :: handle
  flopper :: handle
  pot :: handle
  dai :: handle
  dai_join :: handle
  mkr :: handle
  spotter :: handle
  ds_chief :: handle
  esm :: handle
  end_c :: handle
  proxy_registry :: handle
  dss_proxy_actions :: handle
  cdp_manager :: handle
  dsr_manager :: handle
  collaterals :: "(string \<times> Collateral) list"

definition NETWORKS :: "(string \<times> string) list" where
  "NETWORKS = [(''1'', ''mainnet''), (''42'', ''kovan'')]"

text \<open>\<^verbatim>\<open>d.get(k, default)\<close>\<close>

definition get :: "(string \<times> 'a) list \<Rightarrow> string \<Rightarrow> 'a \<Rightarrow> 'a" where
  "get d k dflt = (case map_of d k of None \<Rightarrow> dflt | Some v \<Rightarrow> v)"

text \<open>\<^verbatim>\<open>d[k]\<close>\<close>

definition getitem :: "(string \<times> 'a) list \<Rightarrow> string \<Rightarrow> error + 'a" where
  "getitem d k = (case map_of d k of None \<Rightarrow> Inl (KeyError k) | Some v \<Rightarrow> Inr v)"

definition bind :: "error + 'a \<Rightarrow> ('a \<Rightarrow> error + 'b) \<Rightarrow> error + 'b" where
  "bind m f = (case m of Inl e \<Rightarrow> Inl e | Inr v \<Rightarrow> f v)"

text \<open>\<^verbatim>\<open>_infer_collaterals_from_addresses\<close>\<close>

fun infer_collaterals_from_addresses :: "string list \<Rightarrow> (string \<times> string) list" where
  "infer_collaterals_from_addresses [] = []"
| "infer_collaterals_from_addresses (key # keys) =
     (case search_flip_sym key of
        Some (g1, g2) \<Rightarrow> (g1, g2) # infer_collaterals_from_addresses keys
      | None \<Rightarrow>
          (case search_flip key of
             Some g1 \<Rightarrow> (g1, g1) # infer_collaterals_from_addresses keys
           | None \<Rightarrow> infer_collaterals_from_addresses keys))"

text \<open>
  The body of the loop of \<^verbatim>\<open>Config.from_json\<close>, for one inferred pair \<open>name\<close>.
  \<^verbatim>\<open>vat.ilk(n)\<close> is modelled from the spec (the class is not part of the source given):
  it returns the ilk named \<open>n\<close>.
\<close>

definition make_collateral :: "Web3 \<Rightarrow> conf \<Rightarrow> string \<times> string \<Rightarrow> error + Collateral" where
  "make_collateral web3 cf name =
     bind (getitem cf (snd name)) (\<lambda>gem_address.
     bind (getitem cf (''MCD_JOIN_'' @ fst name)) (\<lambda>adapter_address.
     bind (getitem cf (''PIP_'' @ snd name)) (\<lambda>pip_address.
     bind (getitem cf (''MCD_FLIP_'' @ fst name)) (\<lambda>flipper_address.
       Inr \<lparr>ilk = replace CHR ''_'' CHR ''-'' (fst name),
            gem = new (if snd name = ''ETH'' then DSEthToken else DSToken) gem_address,
            adapter = new (if snd name \<in> set [''USDC'', ''WBTC'', ''TUSD'', ''USDT'', ''GUSD'', ''RENBTC'']
                           then GemJoin5 else GemJoin) adapter_address,
            flipper = new Flipper flipper_address,
            pip = Some (new (if get NETWORKS (net_version web3) ''testnet'' = ''testnet'' then DSValue
                             else if startswith (snd name) ''UNIV2'' then Univ2LpOSM
                             else OSM) pip_address)\<rparr>))))"

fun from_json_loop ::
  "Web3 \<Rightarrow> conf \<Rightarrow> (string \<times> string) list \<Rightarrow> (string \<times> Collateral) list
     \<Rightarrow> error + (string \<times> Collateral) list" where
  "from_json_loop web3 cf [] cols = Inr cols"
| "from_json_loop web3 cf (name # names) cols =
     bind (make_collateral web3 cf name) (\<lambda>collateral.
       from_json_loop web3 cf names (AList.update (ilk collateral) collateral cols))"

text \<open>\<^verbatim>\<open>Config.from_json\<close>, on the parsed address book.\<close>

definition from_json :: "Web3 \<Rightarrow> conf \<Rightarrow> error + Config" where
  "from_json web3 cf =
     bind (getitem cf ''MCD_PAUSE'') (\<lambda>a_pause.
     bind (getitem cf ''MCD_VAT'') (\<lambda>a_vat.
     bind (getitem cf ''MCD_VOW'') (\<lambda>a_vow.
     bind (getitem cf ''MCD_JUG'') (\<lambda>a_jug.
     bind (getitem cf ''MCD_CAT'') (\<lambda>a_cat.
     bind (getitem cf ''MCD_DAI'') (\<lambda>a_dai.
     bind (getitem cf ''MCD_JOIN_DAI'') (\<lambda>a_dai_adapter.
     bind (getitem cf ''MCD_FLAP'') (\<lambda>a_flapper.
     bind (getitem cf ''MCD_FLOP'') (\<lambda>a_flopper.
     bind (getitem cf ''MCD_POT'') (\<lambda>a_pot.
     bind (getitem cf ''MCD_GOV'') (\<lambda>a_mkr.
     bind (getitem cf ''MCD_SPOT'') (\<lambda>a_spotter.
     bind (getitem cf ''MCD_ADM'') (\<lambda>a_ds_chief.
     bind (getitem cf ''MCD_ESM'') (\<lambda>a_esm.
     bind (getitem cf ''MCD_END'') (\<lambda>a_end.
     bind (getitem cf ''PROXY_REGISTRY'') (\<lambda>a_proxy_registry.
     bind (getitem cf ''PROXY_ACTIONS_DSR'') (\<lambda>a_dss_proxy_actions.
     bind (getitem cf ''CDP_MANAGER'') (\<lambda>a_cdp_manager.
     bind (getitem cf ''DSR_MANAGER'') (\<lambda>a_dsr_manager.
     bind (from_json_loop web3 cf (infer_collaterals_from_addresses (map fst cf)) []) (\<lambda>cols.
       Inr \<lparr>pause = new DSPause a_pause, vat = new Vat a_vat, vow = new Vow a_vow,
            jug = new Jug a_jug, cat = new Cat a_cat, flapper = new Flapper a_flapper,
            flopper = new Flopper a_flopper, pot = new Pot a_pot, dai = new DSToken a_dai,
            dai_join = new DaiJoin a_dai_adapter, mkr = new DSToken a_mkr,
            spotter = new Spotter a_spotter, ds_chief = new DSChief a_ds_chief,
            esm = new ShutdownModule a_esm, end_c = new End a_end,
            proxy_registry = new ProxyRegistry a_proxy_registry,
            dss_proxy_actions = new DssProxyActionsDsr a_dss_proxy_actions,
            cdp_manager = new CdpManager a_cdp_manager,
            dsr_manager = new DsrManager a_dsr_manager,
            collaterals = cols\<rparr>))))))))))))))))))))"

text \<open>
  The loop of \<^verbatim>\<open>Config.to_dict\<close> over \<^verbatim>\<open>self.collaterals.values()\<close>.
  \<^verbatim>\<open>match.group(1)\<close> on a failed search raises \<^verbatim>\<open>AttributeError\<close>.
\<close>

fun to_dict_loop :: "Collateral list \<Rightarrow> conf \<Rightarrow> error + conf" where
  "to_dict_loop [] conf_dict = Inr conf_dict"
| "to_dict_loop (collateral # rest) conf_dict =
     (case search_symbol (ilk collateral) of
        None \<Rightarrow> Inl AttributeError
      | Some symbol \<Rightarrow>
          (let name0 = replace CHR ''-'' CHR ''_'' (ilk collateral);
               d1 = AList.update symbol (address (gem collateral)) conf_dict;
               d2 = (case pip collateral of
                       Some p \<Rightarrow> AList.update (''PIP_'' @ symbol) (address p) d1
                     | None \<Rightarrow> d1);
               d3 = AList.update (''MCD_JOIN_'' @ name0) (address (adapter collateral)) d2;
               d4 = AList.update (''MCD_FLIP_'' @ name0) (address (flipper collateral)) d3
           in to_dict_loop rest d4))"

definition to_dict :: "Config \<Rightarrow> error + conf" where
  "to_dict self =
     to_dict_loop (map snd (collaterals self))
       [(''MCD_PAUSE'', address (pause self)),
        (''MCD_VAT'', address (vat self)),
        (''MCD_VOW'', address (vow self)),
        (''MCD_JUG'', address (jug self)),
        (''MCD_CAT'', address (cat self)),
        (''MCD_FLAP'', address (flapper self)),
        (''MCD_FLOP'', address (flopper self)),
        (''MCD_POT'', address (pot self)),
        (''MCD_DAI'', address (dai self)),
        (''MCD_JOIN_DAI'', address (dai_join self)),
        (''MCD_GOV'', address (mkr self)),
        (''MCD_SPOT'', address (spotter self)),
        (''MCD_ADM'', address (ds_chief self)),
        (''MCD_ESM'', address (esm self)),
        (''MCD_END'', address (end_c self)),
        (''PROXY_REGISTRY'', address (proxy_registry self)),
        (''PROXY_ACTIONS_DSR'', address (dss_proxy_actions self)),
        (''CDP_MANAGER'', address (cdp_manager self)),
        (''DSR_MANAGER'', address (dsr_manager self))]"

definition to_json :: "Config \<Rightarrow> error + conf" where
  "to_json self = to_dict self"

subsection \<open>\<^verbatim>\<open>DssDeployment\<close>\<close>

record DssDeployment =
  dep_web3 :: Web3
  dep_config :: Config
  dep_pause :: handle
  dep_vat :: handle
  dep_vow :: handle
  dep_jug :: handle
  dep_cat :: handle
  dep_flapper :: handle
  dep_flopper :: handle
  dep_pot :: handle
  dep_dai :: handle
  dep_dai_adapter :: handle
  dep_mkr :: handle
  dep_collaterals :: "(string \<times> Collateral) list"
  dep_spotter :: handle
  dep_ds_chief :: handle
  dep_esm :: handle
  dep_end :: handle
  dep_proxy_registry :: handle
  dep_dss_proxy_actions :: handle
  dep_cdp_manager :: handle
  dep_dsr_manager :: handle

text \<open>\<^verbatim>\<open>DssDeployment.__init__\<close>\<close>

definition DssDeployment_init :: "Web3 \<Rightarrow> Config \<Rightarrow> DssDeployment" where
  "DssDeployment_init web3 config =
     \<lparr>dep_web3 = web3, dep_config = config,
      dep_pause = pause config, dep_vat = vat config, dep_vow = vow config,
      dep_jug = jug config, dep_cat = cat config, dep_flapper = flapper config,
      dep_flopper = flopper config, dep_pot = pot config, dep_dai = dai config,
      dep_dai_adapter = dai_join config, dep_mkr = mkr config,
      dep_collaterals = collaterals config, dep_spotter = spotter config,
      dep_ds_chief = ds_chief config, dep_esm = esm config, dep_end = end_c config,
      dep_proxy_registry = proxy_registry config,
      dep_dss_proxy_actions = dss_proxy_actions config,
      dep_cdp_manager = cdp_manager config, dep_dsr_manager = dsr_manager config\<rparr>"

definition DssDeployment_from_json :: "Web3 \<Rightarrow> conf \<Rightarrow> error + DssDeployment" where
  "DssDeployment_from_json web3 cf =
     bind (from_json web3 cf) (\<lambda>config. Inr (DssDeployment_init web3 config))"

definition DssDeployment_to_json :: "DssDeployment \<Rightarrow> error + conf" where
  "DssDeployment_to_json self = to_json (dep_config self)"

text \<open>\<^verbatim>\<open>os.path.join(a, b)\<close> on POSIX paths.\<close>

definition path_join :: "string \<Rightarrow> string \<Rightarrow> string" where
  "path_join a b =
     (if startswith b ''/'' then b
      else if a = [] \<or> last a = CHR ''/'' then a @ b
      else a @ ''/'' @ b)"

text \<open>
  \<^verbatim>\<open>from_network\<close>: \<open>cwd\<close> is the directory of the module file and \<open>fs\<close> the file
  system, a map from paths to the address books the files hold; opening a path that is
  not there raises \<^verbatim>\<open>FileNotFoundError\<close>.
\<close>

definition addresses_path :: "string \<Rightarrow> string \<Rightarrow> string" where
  "addresses_path cwd network =
     path_join (path_join cwd ''../config'') (network @ ''-addresses.json'')"

definition from_network ::
  "string \<Rightarrow> (string \<Rightarrow> conf option) \<Rightarrow> Web3 \<Rightarrow> string \<Rightarrow> error + DssDeployment" where
  "from_network cwd fs web3 network =
     (case fs (addresses_path cwd network) of
        None \<Rightarrow> Inl (FileNotFoundError (addresses_path cwd network))
      | Some cf \<Rightarrow> DssDeployment_from_json web3 cf)"

definition from_node ::
  "string \<Rightarrow> (string \<Rightarrow> conf option) \<Rightarrow> Web3 \<Rightarrow> error + DssDeployment" where
  "from_node cwd fs web3 =
     from_network cwd fs web3 (get NETWORKS (net_version web3) ''testnet'')"

subsection \<open>The naming convention, as the specification words it\<close>

text \<open>
  The definitions of this part follow the words of the specification; the theorems
  compare them with the functions above. First the part of a string before its last
  underscore (empty when there is no underscore).
\<close>

definition upto_last_underscore :: "string \<Rightarrow> string" where
  "upto_last_underscore s = rev (tl (dropWhile (\<lambda>c. c \<noteq> CHR ''_'') (rev s)))"

text \<open>
  The symbol of a key suffix: the part before its last underscore that is neither its
  first nor its last character, and the whole suffix when it has no such underscore.
\<close>

definition symbol_of :: "string \<Rightarrow> string" where
  "symbol_of suf =
     (let a = upto_last_underscore (butlast suf) in if a = [] then suf else a)"

text \<open>The nineteen names every address book holds, with the handle each one stands for.\<close>

definition fixed_keys :: "string list" where
  "fixed_keys =
     [''MCD_PAUSE'', ''MCD_VAT'', ''MCD_VOW'', ''MCD_JUG'', ''MCD_CAT'', ''MCD_FLAP'',
      ''MCD_FLOP'', ''MCD_POT'', ''MCD_DAI'', ''MCD_JOIN_DAI'', ''MCD_GOV'', ''MCD_SPOT'',
      ''MCD_ADM'', ''MCD_ESM'', ''MCD_END'', ''PROXY_REGISTRY'', ''PROXY_ACTIONS_DSR'',
      ''CDP_MANAGER'', ''DSR_MANAGER'']"

definition fixed_handles :: "Config \<Rightarrow> handle list" where
  "fixed_handles c =
     [pause c, vat c, vow c, jug c, cat c, flapper c, flopper c, pot c, dai c, dai_join c,
      mkr c, spotter c, ds_chief c, esm c, end_c c, proxy_registry c, dss_proxy_actions c,
      cdp_manager c, dsr_manager c]"

text \<open>The names \<^verbatim>\<open>from_json\<close> reads from an address book.\<close>

definition required_keys :: "conf \<Rightarrow> string list" where
  "required_keys cf =
     fixed_keys @
     concat (map (\<lambda>(n, s). [s, ''MCD_JOIN_'' @ n, ''PIP_'' @ s, ''MCD_FLIP_'' @ n])
               (infer_collaterals_from_addresses (map fst cf)))"

text \<open>An address book with one collateral, and the configuration it stands for on mainnet.\<close>

definition example_web3 :: Web3 where
  "example_web3 = \<lparr>net_version = ''1''\<rparr>"

definition example_collateral :: Collateral where
  "example_collateral =
     \<lparr>ilk = ''ETH-A'', gem = new DSEthToken ''0xa1'', adapter = new GemJoin ''0xa2'',
      flipper = new Flipper ''0xa3'', pip = Some (new OSM ''0xa4'')\<rparr>"

definition example_config :: Config where
  "example_config =
     \<lparr>pause = new DSPause ''0x01'', vat = new Vat ''0x02'', vow = new Vow ''0x03'',
      jug = new Jug ''0x04'', cat = new Cat ''0x05'', flapper = new Flapper ''0x06'',
      flopper = new Flopper ''0x07'', pot = new Pot ''0x08'', dai = new DSToken ''0x09'',
      dai_join = new DaiJoin ''0x0a'', mkr = new DSToken ''0x0b'',
      spotter = new Spotter ''0x0c'', ds_chief = new DSChief ''0x0d'',
      esm = new ShutdownModule ''0x0e'', end_c = new End ''0x0f'',
      proxy_registry = new ProxyRegistry ''0x10'',
      dss_proxy_actions = new DssProxyActionsDsr ''0x11'',
      cdp_manager = new CdpManager ''0x12'', dsr_manager = new DsrManager ''0x13'',
      collaterals = [(''ETH-A'', example_collateral)]\<rparr>"

definition example_book :: conf where
  "example_book =
     [(''MCD_PAUSE'', ''0x01''), (''MCD_VAT'', ''0x02''), (''MCD_VOW'', ''0x03''),
      (''MCD_JUG'', ''0x04''), (''MCD_CAT'', ''0x05''), (''MCD_FLAP'', ''0x06''),
      (''MCD_FLOP'', ''0x07''), (''MCD_POT'', ''0x08''), (''MCD_DAI'', ''0x09''),
      (''MCD_JOIN_DAI'', ''0x0a''), (''MCD_GOV'', ''0x0b''), (''MCD_SPOT'', ''0x0c''),
      (''MCD_ADM'', ''0x0d''), (''MCD_ESM'', ''0x0e''), (''MCD_END'', ''0x0f''),
      (''PROXY_REGISTRY'', ''0x10''), (''PROXY_ACTIONS_DSR'', ''0x11''),
      (''CDP_MANAGER'', ''0x12''), (''DSR_MANAGER'', ''0x13''), (''ETH'', ''0xa1''),
      (''PIP_ETH'', ''0xa4''), (''MCD_JOIN_ETH_A'', ''0xa2''), (''MCD_FLIP_ETH_A'', ''0xa3'')]"

text \<open>
  The address book a configuration stands for, in the words of the naming convention:
  the nineteen fixed names with the addresses of their handles and, for each collateral
  with ilk name \<open>N\<close>, the symbol \<open>S\<close> (the part of \<open>N\<close> before its first hyphen) with the gem,
  \<open>PIP_S\<close> with the price feed when there is one, and \<open>MCD_JOIN_\<close> and \<open>MCD_FLIP_\<close>,
  followed by \<open>N\<close> with underscores for its hyphens, with the adapter and the flipper.
\<close>

definition gem_symbol :: "string \<Rightarrow> string" where
  "gem_symbol N = takeWhile (\<lambda>c. c \<noteq> CHR ''-'') N"

definition collateral_entries :: "Collateral \<Rightarrow> conf" where
  "collateral_entries col =
     [(gem_symbol (ilk col), address (gem col))] @
     (case pip col of Some p \<Rightarrow> [(''PIP_'' @ gem_symbol (ilk col), address p)] | None \<Rightarrow> []) @
     [(''MCD_JOIN_'' @ replace CHR ''-'' CHR ''_'' (ilk col), address (adapter col)),
      (''MCD_FLIP_'' @ replace CHR ''-'' CHR ''_'' (ilk col), address (flipper col))]"

definition address_book :: "Config \<Rightarrow> conf" where
  "address_book c =
     zip fixed_keys (map address (fixed_handles c)) @
     concat (map collateral_entries (map snd (collaterals c)))"

text \<open>The ilk name begins with a symbol: word characters up to the first hyphen or the end.\<close>

definition symbol_named :: "Collateral \<Rightarrow> bool" where
  "symbol_named col =
     (gem_symbol (ilk col) \<noteq> [] \<and> list_all is_word (gem_symbol (ilk col)))"

text \<open>A configuration with two collaterals of one symbol and different gems.\<close>

definition two_gem_config :: Config where
  "two_gem_config =
     example_config\<lparr>collaterals :=
       [(''ETH-A'', example_collateral),
        (''ETH-B'', example_collateral\<lparr>ilk := ''ETH-B'', gem := new DSEthToken ''0xb1''\<rparr>)]\<rparr>"

text \<open>
  The naming convention for ilk names: a symbol of letters and digits, alone or followed
  by a hyphen and a sub-type of letters and digits.
\<close>

definition alnum :: "string \<Rightarrow> bool" where
  "alnum s = (s \<noteq> [] \<and> list_all (\<lambda>c. is_word c \<and> c \<noteq> CHR ''_'') s)"

definition conventional_ilk :: "string \<Rightarrow> bool" where
  "conventional_ilk N =
     (alnum (gem_symbol N) \<and>
      (case dropWhile (\<lambda>c. c \<noteq> CHR ''-'') N of [] \<Rightarrow> True | h # T \<Rightarrow> alnum T))"

text \<open>Configurations with a collateral that has no price feed.\<close>

definition pipless_config :: Config where
  "pipless_config =
     example_config\<lparr>collaterals := [(''ETH-A'', example_collateral\<lparr>pip := None\<rparr>)]\<rparr>"

definition shared_pip_config :: Config where
  "shared_pip_config =
     example_config\<lparr>collaterals :=
       [(''ETH-A'', example_collateral\<lparr>pip := None\<rparr>),
        (''ETH-B'', example_collateral\<lparr>ilk := ''ETH-B''\<rparr>)]\<rparr>"

text \<open>
  Two collaterals with the same ilk name and the same four addresses, and two
  configurations with the same addresses throughout: the fixed handles agree, the tables
  have the same ilk names, and each ilk name stands for collaterals of the same addresses.
\<close>

definition same_addresses :: "Collateral \<Rightarrow> Collateral \<Rightarrow> bool" where
  "same_addresses a b =
     (ilk a = ilk b \<and> address (gem a) = address (gem b) \<and>
      address (adapter a) = address (adapter b) \<and>
      address (flipper a) = address (flipper b) \<and>
      map_option address (pip a) = map_option address (pip b))"

definition equivalent :: "Config \<Rightarrow> Config \<Rightarrow> bool" where
  "equivalent c c' =
     (map address (fixed_handles c') = map address (fixed_handles c) \<and>
      set (map fst (collaterals c')) = set (map fst (collaterals c)) \<and>
      list_all (\<lambda>(k, col). case map_of (collaterals c') k of
                               None \<Rightarrow> False
                             | Some col' \<Rightarrow> same_addresses col col') (collaterals c))"

text \<open>
  The configurations the round trip is stated for: the table is keyed by the ilk names,
  the ilk names follow the convention, every collateral has a price feed, and the address
  book of the configuration gives no key two different addresses.
\<close>

definition round_trip_ready :: "Config \<Rightarrow> bool" where
  "round_trip_ready c =
     (distinct (map fst (collaterals c)) \<and>
      list_all (\<lambda>(k, col). k = ilk col \<and> conventional_ilk (ilk col) \<and> pip col \<noteq> None)
        (collaterals c) \<and>
      single_valued (set (address_book c)))"


section \<open>Properties of the regular expressions\<close>

lemma is_word_underscore: "is_word CHR ''_''"
  by (simp add: is_word_def)

lemma is_word_hyphen: "\<not> is_word CHR ''-''"
  by (simp add: is_word_def)

lemma replace_back:
  "CHR ''-'' \<notin> set n \<Longrightarrow> replace CHR ''-'' CHR ''_'' (replace CHR ''_'' CHR ''-'' n) = n"
  by (induction n) (auto simp: replace_def)

lemma match_sym_step:
  "match_sym s (Suc j) =
     (if hit s (Suc j)
      then Some (take (Suc j) s @ CHR ''_'' # takeWhile is_word (drop (Suc (Suc j)) s), take (Suc j) s)
      else match_sym s j)"
proof (cases "Suc j < length s")
  case True
  then have "drop (Suc j) s = s ! Suc j # drop (Suc (Suc j)) s"
    by (simp add: Cons_nth_drop_Suc)
  then show ?thesis using True by (simp add: hit_def)
next
  case False
  then show ?thesis by (simp add: hit_def)
qed

lemma match_sym_None: "match_sym s j = None \<longleftrightarrow> (\<forall>k. 0 < k \<and> k \<le> j \<longrightarrow> \<not> hit s k)"
proof (induction j)
  case 0
  show ?case by simp
next
  case (Suc j)
  show ?case
  proof (cases "hit s (Suc j)")
    case True
    then show ?thesis by (auto simp: match_sym_step simp del: match_sym.simps)
  next
    case False
    have "(\<forall>k. 0 < k \<and> k \<le> Suc j \<longrightarrow> \<not> hit s k) \<longleftrightarrow> (\<forall>k. 0 < k \<and> k \<le> j \<longrightarrow> \<not> hit s k)"
      using False by (metis le_Suc_eq le_SucI)
    then show ?thesis using False Suc by (simp add: match_sym_step del: match_sym.simps)
  qed
qed

lemma match_sym_Some:
  "match_sym s j = Some (g1, g2) \<Longrightarrow>
     \<exists>k. 0 < k \<and> k \<le> j \<and> hit s k \<and> (\<forall>k'. k < k' \<and> k' \<le> j \<longrightarrow> \<not> hit s k') \<and>
         g2 = take k s \<and> g1 = take k s @ CHR ''_'' # takeWhile is_word (drop (Suc k) s)"
proof (induction j)
  case 0
  then show ?case by simp
next
  case (Suc j)
  show ?case
  proof (cases "hit s (Suc j)")
    case True
    with Suc.prems have "g2 = take (Suc j) s"
      "g1 = take (Suc j) s @ CHR ''_'' # takeWhile is_word (drop (Suc (Suc j)) s)"
      by (auto simp: match_sym_step simp del: match_sym.simps)
    with True show ?thesis by (intro exI[of _ "Suc j"]) auto
  next
    case False
    with Suc.prems have "match_sym s j = Some (g1, g2)"
      by (simp add: match_sym_step del: match_sym.simps)
    from Suc.IH[OF this] obtain k where k: "0 < k" "k \<le> j" "hit s k"
      "\<forall>k'. k < k' \<and> k' \<le> j \<longrightarrow> \<not> hit s k'" "g2 = take k s"
      "g1 = take k s @ CHR ''_'' # takeWhile is_word (drop (Suc k) s)" by blast
    have "\<forall>k'. k < k' \<and> k' \<le> Suc j \<longrightarrow> \<not> hit s k'"
      using k(4) False by (metis le_Suc_eq)
    with k show ?thesis by (intro exI[of _ k]) auto
  qed
qed

lemma match_sym_hit:
  "0 < k \<Longrightarrow> k \<le> j \<Longrightarrow> hit s k \<Longrightarrow> (\<forall>k'. k < k' \<and> k' \<le> j \<longrightarrow> \<not> hit s k') \<Longrightarrow>
     match_sym s j = Some (take k s @ CHR ''_'' # takeWhile is_word (drop (Suc k) s), take k s)"
proof (induction j)
  case 0
  then show ?case by simp
next
  case (Suc j)
  show ?case
  proof (cases "k = Suc j")
    case True
    with Suc.prems show ?thesis by (simp add: match_sym_step del: match_sym.simps)
  next
    case False
    with Suc.prems have "k \<le> j" "\<not> hit s (Suc j)" by auto
    moreover have "\<forall>k'. k < k' \<and> k' \<le> j \<longrightarrow> \<not> hit s k'" using Suc.prems(4) by auto
    ultimately show ?thesis using Suc.IH Suc.prems(1,3)
      by (simp add: match_sym_step del: match_sym.simps)
  qed
qed

lemma takeWhile_word_split:
  assumes k: "k \<le> length (takeWhile is_word t)" and h: "hit t k"
  shows "take k t @ CHR ''_'' # takeWhile is_word (drop (Suc k) t) = takeWhile is_word t"
proof -
  have kl: "k < length t" and tk: "t ! k = CHR ''_''" using h by (auto simp: hit_def)
  have "take k t = take k (takeWhile is_word t)"
    using k by (metis min.absorb1 take_take takeWhile_eq_take)
  hence w: "\<forall>x\<in>set (take k t). is_word x"
    by (metis in_set_takeD set_takeWhileD)
  have "t = take k t @ t ! k # drop (Suc k) t" using kl by (simp add: id_take_nth_drop)
  then have "takeWhile is_word t = takeWhile is_word (take k t @ CHR ''_'' # drop (Suc k) t)"
    using tk by simp
  also have "\<dots> = take k t @ takeWhile is_word (CHR ''_'' # drop (Suc k) t)"
    using w by (simp add: takeWhile_append2)
  finally show ?thesis by (simp add: is_word_underscore)
qed

lemma match_flip_sym_Some:
  assumes "match_flip_sym s = Some (g1, g2)"
  shows "startswith s ''MCD_FLIP_'' \<and> g1 = takeWhile is_word (drop 9 s) \<and>
         (\<exists>k. 0 < k \<and> k \<le> length g1 \<and> hit (drop 9 s) k \<and> g2 = take k (drop 9 s))"
proof -
  let ?t = "drop 9 s"
  from assms have st: "startswith s ''MCD_FLIP_''"
    and m: "match_sym ?t (length (takeWhile is_word ?t)) = Some (g1, g2)"
    by (auto simp: match_flip_sym_def split: if_splits)
  from match_sym_Some[OF m] obtain k where k: "0 < k" "k \<le> length (takeWhile is_word ?t)"
    "hit ?t k" "g2 = take k ?t"
    "g1 = take k ?t @ CHR ''_'' # takeWhile is_word (drop (Suc k) ?t)" by blast
  have "g1 = takeWhile is_word ?t" using takeWhile_word_split[OF k(2,3)] k(5) by simp
  with st k show ?thesis by auto
qed

lemma match_flip_sym_imp_match_flip:
  assumes "match_flip_sym s = Some (g1, g2)"
  shows "match_flip s = Some g1"
proof -
  from match_flip_sym_Some[OF assms] obtain k where
    "startswith s ''MCD_FLIP_''" "g1 = takeWhile is_word (drop 9 s)" "0 < k" "k \<le> length g1"
    by blast
  then show ?thesis by (auto simp: match_flip_def)
qed

lemma match_flip_sym_Nil: "match_flip_sym [] = None"
  by (simp add: match_flip_sym_def startswith_def)

lemma match_flip_Nil: "match_flip [] = None"
  by (simp add: match_flip_def startswith_def)

lemma search_flip_sym_None:
  "search_flip_sym s = None \<longleftrightarrow> (\<forall>p. match_flip_sym (drop p s) = None)"
proof (induction s)
  case Nil
  show ?case by (simp add: match_flip_sym_Nil)
next
  case (Cons c cs)
  have "(\<forall>p. match_flip_sym (drop p (c # cs)) = None) \<longleftrightarrow>
        match_flip_sym (c # cs) = None \<and> (\<forall>p. match_flip_sym (drop p cs) = None)"
  proof
    assume a: "\<forall>p. match_flip_sym (drop p (c # cs)) = None"
    have "match_flip_sym (c # cs) = None" using a[rule_format, of 0] by simp
    moreover have "\<forall>p. match_flip_sym (drop p cs) = None"
    proof
      fix p show "match_flip_sym (drop p cs) = None" using a[rule_format, of "Suc p"] by simp
    qed
    ultimately show "match_flip_sym (c # cs) = None \<and> (\<forall>p. match_flip_sym (drop p cs) = None)"
      by simp
  next
    assume a: "match_flip_sym (c # cs) = None \<and> (\<forall>p. match_flip_sym (drop p cs) = None)"
    show "\<forall>p. match_flip_sym (drop p (c # cs)) = None"
    proof
      fix p show "match_flip_sym (drop p (c # cs)) = None" using a by (cases p) auto
    qed
  qed
  then show ?case using Cons by (auto split: option.splits)
qed

lemma search_flip_sym_Some:
  "search_flip_sym s = Some r \<Longrightarrow> \<exists>p. match_flip_sym (drop p s) = Some r"
proof (induction s)
  case Nil
  then show ?case by simp
next
  case (Cons c cs)
  show ?case
  proof (cases "match_flip_sym (c # cs)")
    case None
    with Cons.prems have "search_flip_sym cs = Some r" by simp
    from Cons.IH[OF this] obtain p where "match_flip_sym (drop p cs) = Some r" ..
    then have "match_flip_sym (drop (Suc p) (c # cs)) = Some r" by simp
    then show ?thesis ..
  next
    case (Some r')
    with Cons.prems have "match_flip_sym (drop 0 (c # cs)) = Some r" by simp
    then show ?thesis ..
  qed
qed

lemma search_flip_None:
  "search_flip s = None \<longleftrightarrow> (\<forall>p. match_flip (drop p s) = None)"
proof (induction s)
  case Nil
  show ?case by (simp add: match_flip_Nil)
next
  case (Cons c cs)
  have "(\<forall>p. match_flip (drop p (c # cs)) = None) \<longleftrightarrow>
        match_flip (c # cs) = None \<and> (\<forall>p. match_flip (drop p cs) = None)"
  proof
    assume a: "\<forall>p. match_flip (drop p (c # cs)) = None"
    have "match_flip (c # cs) = None" using a[rule_format, of 0] by simp
    moreover have "\<forall>p. match_flip (drop p cs) = None"
    proof
      fix p show "match_flip (drop p cs) = None" using a[rule_format, of "Suc p"] by simp
    qed
    ultimately show "match_flip (c # cs) = None \<and> (\<forall>p. match_flip (drop p cs) = None)"
      by simp
  next
    assume a: "match_flip (c # cs) = None \<and> (\<forall>p. match_flip (drop p cs) = None)"
    show "\<forall>p. match_flip (drop p (c # cs)) = None"
    proof
      fix p show "match_flip (drop p (c # cs)) = None" using a by (cases p) auto
    qed
  qed
  then show ?case using Cons by (auto split: option.splits)
qed

lemma search_flip_Some:
  "search_flip s = Some r \<Longrightarrow> \<exists>p. match_flip (drop p s) = Some r"
proof (induction s)
  case Nil
  then show ?case by simp
next
  case (Cons c cs)
  show ?case
  proof (cases "match_flip (c # cs)")
    case None
    with Cons.prems have "search_flip cs = Some r" by simp
    from Cons.IH[OF this] obtain p where "match_flip (drop p cs) = Some r" ..
    then have "match_flip (drop (Suc p) (c # cs)) = Some r" by simp
    then show ?thesis ..
  next
    case (Some r')
    with Cons.prems have "match_flip (drop 0 (c # cs)) = Some r" by simp
    then show ?thesis ..
  qed
qed

lemma search_flip_None_imp_sym: "search_flip s = None \<Longrightarrow> search_flip_sym s = None"
proof -
  assume a: "search_flip s = None"
  have "match_flip_sym (drop p s) = None" for p
  proof (cases "match_flip_sym (drop p s)")
    case None then show ?thesis .
  next
    case (Some r)
    then have "match_flip (drop p s) = Some (fst r)"
      using match_flip_sym_imp_match_flip[of "drop p s" "fst r" "snd r"] by simp
    with a show ?thesis by (simp add: search_flip_None)
  qed
  then show ?thesis by (simp add: search_flip_sym_None)
qed

lemma search_flip_sym_word:
  "search_flip_sym s = Some (g1, g2) \<Longrightarrow> g1 \<noteq> [] \<and> (\<forall>c\<in>set g1. is_word c)"
proof -
  assume "search_flip_sym s = Some (g1, g2)"
  then obtain p where "match_flip_sym (drop p s) = Some (g1, g2)"
    using search_flip_sym_Some by blast
  from match_flip_sym_Some[OF this] obtain k where
    "g1 = takeWhile is_word (drop 9 (drop p s))" "0 < k" "k \<le> length g1" by blast
  then show ?thesis by (auto dest: set_takeWhileD)
qed

lemma search_flip_word:
  "search_flip s = Some g1 \<Longrightarrow> g1 \<noteq> [] \<and> (\<forall>c\<in>set g1. is_word c)"
proof -
  assume "search_flip s = Some g1"
  then obtain p where "match_flip (drop p s) = Some g1"
    using search_flip_Some by blast
  then show ?thesis by (auto simp: match_flip_def split: if_splits dest: set_takeWhileD)
qed

lemma infer_mem:
  "(n, s) \<in> set (infer_collaterals_from_addresses keys) \<longleftrightarrow>
     (\<exists>key\<in>set keys. search_flip_sym key = Some (n, s) \<or>
        (search_flip_sym key = None \<and> search_flip key = Some n \<and> s = n))"
  by (induction keys) (auto split: option.splits)

lemma infer_word:
  assumes "(n, s) \<in> set (infer_collaterals_from_addresses keys)"
  shows "n \<noteq> [] \<and> (\<forall>c\<in>set n. is_word c)"
  using assms search_flip_sym_word search_flip_word unfolding infer_mem by blast

lemma infer_append:
  "infer_collaterals_from_addresses (ks @ ks') =
     infer_collaterals_from_addresses ks @ infer_collaterals_from_addresses ks'"
  by (induction ks) (auto split: option.splits)

lemma takeWhile_word_all: "\<forall>c\<in>set s. is_word c \<Longrightarrow> takeWhile is_word s = s"
  by (simp add: takeWhile_eq_all_conv)

lemma startswith_flip: "startswith s ''MCD_FLIP_'' \<longleftrightarrow> take 9 s = ''MCD_FLIP_''"
proof -
  have "length ''MCD_FLIP_'' = 9" by simp
  then show ?thesis unfolding startswith_def by (simp only:)
qed

lemma occ_chars:
  assumes "startswith (drop p s) ''MCD_FLIP_''"
  shows "p + 8 < length s \<and> s ! p = CHR ''M'' \<and> s ! (p + 3) = CHR ''_'' \<and> s ! (p + 8) = CHR ''_''"
proof -
  from assms have t: "take 9 (drop p s) = ''MCD_FLIP_''" by (simp add: startswith_flip)
  then have "length (take 9 (drop p s)) = 9" by simp
  then have len: "p + 8 < length s" by simp
  have "take 9 (drop p s) ! i = drop p s ! i" if "i < 9" for i using that by simp
  then have "drop p s ! i = ''MCD_FLIP_'' ! i" if "i < 9" for i using that t by metis
  from this[of 0] this[of 3] this[of 8] len show ?thesis by simp
qed

lemma search_flip_sym_match: "match_flip_sym s = Some r \<Longrightarrow> search_flip_sym s = Some r"
  by (cases s) (auto simp: match_flip_sym_Nil)

lemma search_flip_match: "match_flip s = Some r \<Longrightarrow> search_flip s = Some r"
  by (cases s) (auto simp: match_flip_Nil)

lemma no_occ_search_flip_sym:
  "(\<forall>p. \<not> startswith (drop p s) ''MCD_FLIP_'') \<Longrightarrow> search_flip_sym s = None"
  by (simp add: search_flip_sym_None match_flip_sym_def)

lemma no_occ_search_flip:
  "(\<forall>p. \<not> startswith (drop p s) ''MCD_FLIP_'') \<Longrightarrow> search_flip s = None"
  by (simp add: search_flip_None match_flip_def)

lemma hit_word:
  "\<forall>c\<in>set s. is_word c \<Longrightarrow> hit s k \<longleftrightarrow> Suc k < length s \<and> s ! k = CHR ''_''"
proof -
  assume w: "\<forall>c\<in>set s. is_word c"
  have "\<forall>c\<in>set (drop (Suc k) s). is_word c"
    using w by (meson in_set_dropD)
  then have "takeWhile is_word (drop (Suc k) s) = drop (Suc k) s"
    by (rule takeWhile_word_all)
  then show ?thesis unfolding hit_def by (auto simp del: takeWhile_eq_all_conv)
qed

lemma match_flip_sym_key:
  "\<forall>c\<in>set suf. is_word c \<Longrightarrow>
     match_flip_sym (''MCD_FLIP_'' @ suf) = match_sym suf (length suf)"
proof -
  assume "\<forall>c\<in>set suf. is_word c"
  then show ?thesis by (simp add: match_flip_sym_def startswith_def takeWhile_word_all)
qed

lemma match_flip_key:
  "\<forall>c\<in>set suf. is_word c \<Longrightarrow> suf \<noteq> [] \<Longrightarrow> match_flip (''MCD_FLIP_'' @ suf) = Some suf"
proof -
  assume "\<forall>c\<in>set suf. is_word c" "suf \<noteq> []"
  then show ?thesis by (simp add: match_flip_def startswith_def takeWhile_word_all)
qed

text \<open>An underscore inside the suffix, with the last such one singled out.\<close>

lemma match_sym_inner:
  assumes w: "\<forall>c\<in>set (a @ CHR ''_'' # b). is_word c"
    and a: "a \<noteq> []" and b: "b \<noteq> []" and nb: "CHR ''_'' \<notin> set (butlast b)"
  shows "match_sym (a @ CHR ''_'' # b) (length (a @ CHR ''_'' # b)) = Some (a @ CHR ''_'' # b, a)"
proof -
  let ?s = "a @ CHR ''_'' # b"
  have h: "hit ?s (length a)" using b by (simp add: hit_word[OF w])
  have later: "\<forall>k'. length a < k' \<and> k' \<le> length ?s \<longrightarrow> \<not> hit ?s k'"
  proof (intro allI impI)
    fix k' assume k': "length a < k' \<and> k' \<le> length ?s"
    show "\<not> hit ?s k'"
    proof
      assume "hit ?s k'"
      then have 1: "Suc k' < length ?s" and 2: "?s ! k' = CHR ''_''"
        by (simp_all add: hit_word[OF w])
      let ?i = "k' - Suc (length a)"
      have i: "?i < length b - 1" using 1 k' by simp
      have "?s ! k' = b ! ?i" using k' by (simp add: nth_append nth_Cons')
      also have "\<dots> = butlast b ! ?i" using i by (simp add: nth_butlast)
      finally have e: "butlast b ! ?i = CHR ''_''" using 2 by simp
      have "?i < length (butlast b)" using i by simp
      then have "butlast b ! ?i \<in> set (butlast b)" by (rule nth_mem)
      with nb e show False by simp
    qed
  qed
  have "match_sym ?s (length ?s) =
        Some (take (length a) ?s @ CHR ''_'' # takeWhile is_word (drop (Suc (length a)) ?s),
              take (length a) ?s)"
    using a by (intro match_sym_hit[OF _ _ h later]) auto
  moreover have "takeWhile is_word b = b" using w by (intro takeWhile_word_all) simp
  ultimately show ?thesis by (simp del: takeWhile_eq_all_conv)
qed

lemma match_sym_no_inner:
  assumes w: "\<forall>c\<in>set s. is_word c" and n: "CHR ''_'' \<notin> set (tl (butlast s))"
  shows "match_sym s j = None"
proof -
  have "\<not> hit s k" if "0 < k" for k
  proof
    assume "hit s k"
    then have 1: "Suc k < length s" and 2: "s ! k = CHR ''_''"
      by (simp_all add: hit_word[OF w])
    have "tl (butlast s) ! (k - 1) = butlast s ! k" using that 1 by (simp add: nth_tl)
    also have "\<dots> = s ! k" using 1 by (simp add: nth_butlast)
    finally have e: "tl (butlast s) ! (k - 1) = CHR ''_''" using 2 by simp
    have "k - 1 < length (tl (butlast s))" using 1 that by simp
    then have "tl (butlast s) ! (k - 1) \<in> set (tl (butlast s))" by (rule nth_mem)
    with n e show False by simp
  qed
  then show ?thesis by (simp add: match_sym_None)
qed

lemma no_inner_no_occ:
  assumes n: "CHR ''_'' \<notin> set (tl (butlast s))"
  shows "\<not> startswith (drop p s) ''MCD_FLIP_''"
proof
  assume "startswith (drop p s) ''MCD_FLIP_''"
  from occ_chars[OF this] have 1: "p + 8 < length s" and 2: "s ! (p + 3) = CHR ''_''" by simp_all
  have "tl (butlast s) ! (p + 2) = butlast s ! (p + 3)"
    using 1 by (simp add: nth_tl numeral_3_eq_3)
  also have "\<dots> = s ! (p + 3)" using 1 by (simp add: nth_butlast)
  finally have "tl (butlast s) ! (p + 2) = CHR ''_''" using 2 by simp
  moreover have "p + 2 < length (tl (butlast s))" using 1 by simp
  ultimately have "CHR ''_'' \<in> set (tl (butlast s))" by (metis nth_mem)
  with n show False by simp
qed

lemma search_flip_sym_skip: "c \<noteq> CHR ''M'' \<Longrightarrow> search_flip_sym (c # cs) = search_flip_sym cs"
  by (simp add: match_flip_sym_def startswith_def)

lemma search_flip_skip: "c \<noteq> CHR ''M'' \<Longrightarrow> search_flip (c # cs) = search_flip cs"
  by (simp add: match_flip_def startswith_def)

lemma search_flip_sym_key:
  assumes w: "\<forall>c\<in>set suf. is_word c"
  shows "search_flip_sym (''MCD_FLIP_'' @ suf) =
           (case match_sym suf (length suf) of Some r \<Rightarrow> Some r | None \<Rightarrow> search_flip_sym suf)"
proof -
  have a: "search_flip_sym (''CD_FLIP_'' @ suf) = search_flip_sym suf"
    by (simp add: search_flip_sym_skip del: search_flip_sym.simps)
  have "search_flip_sym (CHR ''M'' # (''CD_FLIP_'' @ suf)) =
        (case match_flip_sym (CHR ''M'' # (''CD_FLIP_'' @ suf)) of Some r \<Rightarrow> Some r
         | None \<Rightarrow> search_flip_sym (''CD_FLIP_'' @ suf))"
    by (rule search_flip_sym.simps)
  then have "search_flip_sym (''MCD_FLIP_'' @ suf) =
        (case match_flip_sym (''MCD_FLIP_'' @ suf) of Some r \<Rightarrow> Some r
         | None \<Rightarrow> search_flip_sym suf)"
    unfolding a by (simp only: append_Cons)
  then show ?thesis by (simp only: match_flip_sym_key[OF w])
qed

lemma infer_key_inner:
  assumes "\<forall>c\<in>set (a @ CHR ''_'' # b). is_word c" "a \<noteq> []" "b \<noteq> []"
    "CHR ''_'' \<notin> set (butlast b)"
  shows "infer_collaterals_from_addresses [''MCD_FLIP_'' @ a @ CHR ''_'' # b] =
           [(a @ CHR ''_'' # b, a)]"
  using search_flip_sym_key[OF assms(1)] match_sym_inner[OF assms] by simp

lemma infer_key_no_inner:
  assumes w: "\<forall>c\<in>set s. is_word c" and s: "s \<noteq> []" and n: "CHR ''_'' \<notin> set (tl (butlast s))"
  shows "infer_collaterals_from_addresses [''MCD_FLIP_'' @ s] = [(s, s)]"
proof -
  have "search_flip_sym s = None"
    using no_inner_no_occ[OF n] by (simp add: no_occ_search_flip_sym)
  then have "search_flip_sym (''MCD_FLIP_'' @ s) = None"
    using search_flip_sym_key[OF w] match_sym_no_inner[OF w n] by simp
  moreover have "search_flip (''MCD_FLIP_'' @ s) = Some s"
    using match_flip_key[OF w s] by (rule search_flip_match)
  ultimately show ?thesis by simp
qed

lemma upto_last_underscore_split:
  "CHR ''_'' \<notin> set b \<Longrightarrow> upto_last_underscore (a @ CHR ''_'' # b) = a"
proof -
  assume "CHR ''_'' \<notin> set b"
  then have "dropWhile (\<lambda>c. c \<noteq> CHR ''_'') (rev b @ CHR ''_'' # rev a) =
             dropWhile (\<lambda>c. c \<noteq> CHR ''_'') (CHR ''_'' # rev a)"
    by (intro dropWhile_append2) auto
  then show ?thesis by (simp add: upto_last_underscore_def)
qed

lemma upto_last_underscore_none:
  "CHR ''_'' \<notin> set (tl s) \<Longrightarrow> upto_last_underscore s = []"
proof (cases s)
  case Nil
  then show ?thesis by (simp add: upto_last_underscore_def)
next
  case (Cons h t)
  assume "CHR ''_'' \<notin> set (tl s)"
  then have "CHR ''_'' \<notin> set t" using Cons by simp
  then have "dropWhile (\<lambda>c. c \<noteq> CHR ''_'') (rev t @ [h]) = dropWhile (\<lambda>c. c \<noteq> CHR ''_'') [h]"
    by (intro dropWhile_append2) auto
  then show ?thesis using Cons by (simp add: upto_last_underscore_def del: dropWhile_append)
qed

lemma inner_split:
  assumes "CHR ''_'' \<in> set (tl (butlast s))"
  shows "\<exists>a b. s = a @ CHR ''_'' # b \<and> a \<noteq> [] \<and> b \<noteq> [] \<and> CHR ''_'' \<notin> set (butlast b) \<and>
               butlast s = a @ CHR ''_'' # butlast b"
proof -
  from split_list_last[OF assms] obtain ys zs where
    yz: "tl (butlast s) = ys @ CHR ''_'' # zs" "CHR ''_'' \<notin> set zs" by blast
  then have ne: "butlast s \<noteq> []" by auto
  then have s: "s \<noteq> []" by auto
  obtain h where bl: "butlast s = (h # ys) @ CHR ''_'' # zs"
    using yz(1) ne by (metis append_Cons list.collapse)
  have "butlast s @ [last s] = s" using s by simp
  then have "s = ((h # ys) @ CHR ''_'' # zs) @ [last s]" unfolding bl by simp
  then have "s = (h # ys) @ CHR ''_'' # (zs @ [last s])" by simp
  moreover have "butlast (zs @ [last s]) = zs" by simp
  ultimately show ?thesis using yz(2) bl
    by (intro exI[of _ "h # ys"] exI[of _ "zs @ [last s]"]) simp
qed

lemma infer_key:
  assumes w: "\<forall>c\<in>set suf. is_word c" and s: "suf \<noteq> []"
  shows "infer_collaterals_from_addresses [''MCD_FLIP_'' @ suf] = [(suf, symbol_of suf)]"
proof (cases "CHR ''_'' \<in> set (tl (butlast suf))")
  case True
  from inner_split[OF True] obtain a b where ab: "suf = a @ CHR ''_'' # b" "a \<noteq> []" "b \<noteq> []"
    "CHR ''_'' \<notin> set (butlast b)" "butlast suf = a @ CHR ''_'' # butlast b" by blast
  have "upto_last_underscore (butlast suf) = a"
    using ab(4,5) by (simp add: upto_last_underscore_split)
  then have "symbol_of suf = a" using ab(2) by (simp add: symbol_of_def)
  moreover have "infer_collaterals_from_addresses [''MCD_FLIP_'' @ suf] = [(suf, a)]"
    using infer_key_inner[of a b] w ab by simp
  ultimately show ?thesis by simp
next
  case False
  then have "symbol_of suf = suf"
    by (simp add: symbol_of_def upto_last_underscore_none)
  then show ?thesis using infer_key_no_inner[OF w s False] by simp
qed

lemma hit_in_run:
  assumes i: "Suc i < length (takeWhile is_word t)" and u: "takeWhile is_word t ! i = CHR ''_''"
  shows "hit t i"
proof -
  let ?r = "takeWhile is_word t"
  have len: "length ?r \<le> length t" by (rule length_takeWhile_le)
  have ti: "t ! i = CHR ''_''" using i u by (simp add: takeWhile_nth)
  have "t ! Suc i = ?r ! Suc i" using i by (simp add: takeWhile_nth)
  moreover have "?r ! Suc i \<in> set ?r" using i by (intro nth_mem)
  ultimately have w: "is_word (t ! Suc i)" by (metis set_takeWhileD)
  have "drop (Suc i) t = t ! Suc i # drop (Suc (Suc i)) t"
    using i len by (intro Cons_nth_drop_Suc[symmetric]) simp
  then have "takeWhile is_word (drop (Suc i) t) \<noteq> []" using w by simp
  then show ?thesis using ti i len by (simp add: hit_def)
qed

lemma symbol_of_split:
  "a \<noteq> [] \<Longrightarrow> b \<noteq> [] \<Longrightarrow> CHR ''_'' \<notin> set (butlast b) \<Longrightarrow> symbol_of (a @ CHR ''_'' # b) = a"
  by (simp add: symbol_of_def butlast_append upto_last_underscore_split)

lemma symbol_of_whole: "CHR ''_'' \<notin> set (tl (butlast s)) \<Longrightarrow> symbol_of s = s"
  by (simp add: symbol_of_def upto_last_underscore_none)

lemma match_flip_sym_symbol:
  assumes "match_flip_sym s = Some (g1, g2)"
  shows "g2 = symbol_of g1"
proof -
  let ?t = "drop 9 s"
  let ?r = "takeWhile is_word ?t"
  from assms have m: "match_sym ?t (length ?r) = Some (g1, g2)"
    by (auto simp: match_flip_sym_def split: if_splits)
  from match_sym_Some[OF m] obtain k where k: "0 < k" "k \<le> length ?r" "hit ?t k"
    "\<forall>k'. k < k' \<and> k' \<le> length ?r \<longrightarrow> \<not> hit ?t k'" "g2 = take k ?t"
    "g1 = take k ?t @ CHR ''_'' # takeWhile is_word (drop (Suc k) ?t)" by blast
  let ?b = "takeWhile is_word (drop (Suc k) ?t)"
  have r: "?r = take k ?t @ CHR ''_'' # ?b" using takeWhile_word_split[OF k(2,3)] by simp
  have kl: "k < length ?t" using k(3) by (simp add: hit_def)
  have a: "take k ?t \<noteq> []" using k(1) kl by auto
  have b: "?b \<noteq> []" using k(3) by (simp add: hit_def)
  have lr: "length ?r = Suc (k + length ?b)" using kl by (subst r) simp
  have nb: "CHR ''_'' \<notin> set (butlast ?b)"
  proof
    assume "CHR ''_'' \<in> set (butlast ?b)"
    then obtain i where i: "i < length (butlast ?b)" "butlast ?b ! i = CHR ''_''"
      by (meson in_set_conv_nth)
    then have bi: "?b ! i = CHR ''_''" by (simp add: nth_butlast)
    have il: "Suc i < length ?b" using i(1) by simp
    have "?r ! (Suc (k + i)) = (take k ?t @ CHR ''_'' # ?b) ! (Suc (k + i))" using r by simp
    also have "\<dots> = ?b ! i" using kl by (simp add: nth_append)
    finally have "?r ! (Suc (k + i)) = CHR ''_''" using bi by simp
    moreover have "Suc (Suc (k + i)) < length ?r" using il lr by simp
    ultimately have "hit ?t (Suc (k + i))" by (intro hit_in_run)
    moreover have "k < Suc (k + i) \<and> Suc (k + i) \<le> length ?r" using il lr by simp
    ultimately show False using k(4) by blast
  qed
  have "symbol_of (take k ?t @ CHR ''_'' # ?b) = take k ?t" by (rule symbol_of_split[OF a b nb])
  then show ?thesis using k(5,6) by simp
qed

lemma match_flip_symbol:
  assumes n: "match_flip_sym s = None" and m: "match_flip s = Some g"
  shows "symbol_of g = g"
proof -
  let ?t = "drop 9 s"
  let ?r = "takeWhile is_word ?t"
  from m have st: "startswith s ''MCD_FLIP_''" and g: "g = ?r"
    by (auto simp: match_flip_def split: if_splits)
  from n st have "match_sym ?t (length ?r) = None" by (simp add: match_flip_sym_def)
  then have nh: "\<forall>k. 0 < k \<and> k \<le> length ?r \<longrightarrow> \<not> hit ?t k" by (simp add: match_sym_None)
  have "CHR ''_'' \<notin> set (tl (butlast ?r))"
  proof
    assume "CHR ''_'' \<in> set (tl (butlast ?r))"
    then obtain i where i: "i < length (tl (butlast ?r))" "tl (butlast ?r) ! i = CHR ''_''"
      by (meson in_set_conv_nth)
    have il: "Suc (Suc i) < length ?r" using i(1) by simp
    have "tl (butlast ?r) ! i = butlast ?r ! Suc i" using i(1) by (simp add: nth_tl)
    also have "\<dots> = ?r ! Suc i" using il by (simp add: nth_butlast)
    finally have "?r ! Suc i = CHR ''_''" using i(2) by simp
    then have "hit ?t (Suc i)" using il by (intro hit_in_run)
    moreover have "0 < Suc i \<and> Suc i \<le> length ?r" using il by simp
    ultimately show False using nh by blast
  qed
  then show ?thesis unfolding g by (rule symbol_of_whole)
qed

lemma match_flip_occurrence:
  assumes "match_flip (drop p key) = Some n"
  shows "\<exists>pre rest. key = pre @ ''MCD_FLIP_'' @ n @ rest \<and> (rest = [] \<or> \<not> is_word (hd rest))"
proof -
  let ?t = "drop 9 (drop p key)"
  from assms have st: "take 9 (drop p key) = ''MCD_FLIP_''" and n: "n = takeWhile is_word ?t"
    by (auto simp: match_flip_def startswith_flip split: if_splits)
  have "key = take p key @ drop p key" by simp
  also have "drop p key = take 9 (drop p key) @ ?t" by (rule append_take_drop_id[symmetric])
  also have "?t = takeWhile is_word ?t @ dropWhile is_word ?t" by simp
  finally have "key = take p key @ ''MCD_FLIP_'' @ n @ dropWhile is_word ?t"
    using st n by simp
  moreover have "dropWhile is_word ?t = [] \<or> \<not> is_word (hd (dropWhile is_word ?t))"
    using hd_dropWhile by blast
  ultimately show ?thesis by blast
qed

lemma search_flip_occurs:
  "search_flip key \<noteq> None \<longleftrightarrow> (\<exists>pre c suf. key = pre @ ''MCD_FLIP_'' @ c # suf \<and> is_word c)"
proof
  assume "search_flip key \<noteq> None"
  then obtain n where "search_flip key = Some n" by blast
  then obtain p where p: "match_flip (drop p key) = Some n" using search_flip_Some by blast
  then have ne: "n \<noteq> []" and w: "\<forall>c\<in>set n. is_word c"
    by (auto simp: match_flip_def split: if_splits dest: set_takeWhileD)
  from match_flip_occurrence[OF p] obtain pre rest where
    "key = pre @ ''MCD_FLIP_'' @ n @ rest" by blast
  then have "key = pre @ ''MCD_FLIP_'' @ hd n # (tl n @ rest)" using ne by simp
  moreover have "is_word (hd n)" using ne w by simp
  ultimately show "\<exists>pre c suf. key = pre @ ''MCD_FLIP_'' @ c # suf \<and> is_word c" by blast
next
  assume "\<exists>pre c suf. key = pre @ ''MCD_FLIP_'' @ c # suf \<and> is_word c"
  then obtain pre c suf where k: "key = pre @ ''MCD_FLIP_'' @ c # suf" and c: "is_word c" by blast
  have "drop (length pre) key = ''MCD_FLIP_'' @ c # suf" using k by simp
  then have "match_flip (drop (length pre) key) \<noteq> None"
    using c by (simp add: match_flip_def startswith_def)
  then show "search_flip key \<noteq> None" by (metis search_flip_None)
qed

lemma infer_single:
  "infer_collaterals_from_addresses [key] =
     (case search_flip_sym key of
        Some r \<Rightarrow> [r]
      | None \<Rightarrow> (case search_flip key of Some n \<Rightarrow> [(n, n)] | None \<Rightarrow> []))"
  by (auto split: option.splits)

lemma infer_single_length: "length (infer_collaterals_from_addresses [key]) \<le> 1"
  by (simp add: infer_single split: option.splits)

lemma infer_single_occurs:
  "infer_collaterals_from_addresses [key] \<noteq> [] \<longleftrightarrow>
     (\<exists>pre c suf. key = pre @ ''MCD_FLIP_'' @ c # suf \<and> is_word c)"
proof -
  have "infer_collaterals_from_addresses [key] \<noteq> [] \<longleftrightarrow> search_flip key \<noteq> None"
    using search_flip_None_imp_sym[of key] by (auto simp: infer_single split: option.splits)
  then show ?thesis by (simp only: search_flip_occurs)
qed

lemma infer_concat:
  "infer_collaterals_from_addresses keys =
     concat (map (\<lambda>key. infer_collaterals_from_addresses [key]) keys)"
  by (induction keys) (auto split: option.splits)

lemma infer_shape:
  assumes "(n, s) \<in> set (infer_collaterals_from_addresses keys)"
  shows "s = symbol_of n \<and>
         (\<exists>key\<in>set keys. \<exists>pre rest. key = pre @ ''MCD_FLIP_'' @ n @ rest \<and>
             (rest = [] \<or> \<not> is_word (hd rest)))"
proof -
  from assms obtain key where key: "key \<in> set keys"
    and c: "search_flip_sym key = Some (n, s) \<or>
            (search_flip_sym key = None \<and> search_flip key = Some n \<and> s = n)"
    unfolding infer_mem by blast
  from c show ?thesis
  proof
    assume "search_flip_sym key = Some (n, s)"
    then obtain p where p: "match_flip_sym (drop p key) = Some (n, s)"
      using search_flip_sym_Some by blast
    have "match_flip (drop p key) = Some n" using p by (rule match_flip_sym_imp_match_flip)
    from match_flip_occurrence[OF this] match_flip_sym_symbol[OF p] key show ?thesis by blast
  next
    assume a: "search_flip_sym key = None \<and> search_flip key = Some n \<and> s = n"
    then obtain p where p: "match_flip (drop p key) = Some n" using search_flip_Some by blast
    have "match_flip_sym (drop p key) = None" using a by (simp add: search_flip_sym_None)
    from match_flip_symbol[OF this p] match_flip_occurrence[OF p] a key show ?thesis by auto
  qed
qed

section \<open>Properties of \<^verbatim>\<open>from_json\<close>\<close>

lemma bind_Inr: "bind m f = Inr y \<longleftrightarrow> (\<exists>v. m = Inr v \<and> f v = Inr y)"
  by (cases m) (auto simp: bind_def)

lemma bind_Inl: "bind m f = Inl e \<longleftrightarrow> m = Inl e \<or> (\<exists>v. m = Inr v \<and> f v = Inl e)"
  by (cases m) (auto simp: bind_def)

lemma getitem_Inr: "getitem d k = Inr v \<longleftrightarrow> map_of d k = Some v"
  by (auto simp: getitem_def split: option.splits)

lemma getitem_Inl: "getitem d k = Inl e \<longleftrightarrow> map_of d k = None \<and> e = KeyError k"
  by (auto simp: getitem_def split: option.splits)

lemma map_of_None_iff: "map_of d k = None \<longleftrightarrow> k \<notin> fst ` set d"
  by (simp add: map_of_eq_None_iff)

lemma example_from_json: "from_json example_web3 example_book = Inr example_config"
  by code_simp

lemma make_collateral_Inr:
  assumes "make_collateral web3 cf name = Inr col"
  shows "ilk col = replace CHR ''_'' CHR ''-'' (fst name) \<and>
         getitem cf (snd name) = Inr (address (gem col)) \<and>
         getitem cf (''MCD_JOIN_'' @ fst name) = Inr (address (adapter col)) \<and>
         (\<exists>p. pip col = Some p \<and> getitem cf (''PIP_'' @ snd name) = Inr (address p)) \<and>
         getitem cf (''MCD_FLIP_'' @ fst name) = Inr (address (flipper col))"
  using assms unfolding make_collateral_def bind_Inr
  by (auto simp: new_def)

lemma make_collateral_Inl:
  assumes "make_collateral web3 cf name = Inl e"
  shows "\<exists>k\<in>{snd name, ''MCD_JOIN_'' @ fst name, ''PIP_'' @ snd name, ''MCD_FLIP_'' @ fst name}.
           k \<notin> fst ` set cf \<and> e = KeyError k"
  using assms unfolding make_collateral_def bind_Inl getitem_Inl map_of_None_iff
  by auto

lemma make_collateral_ok:
  assumes "{snd name, ''MCD_JOIN_'' @ fst name, ''PIP_'' @ snd name, ''MCD_FLIP_'' @ fst name}
             \<subseteq> fst ` set cf"
  shows "\<exists>col. make_collateral web3 cf name = Inr col"
proof (cases "make_collateral web3 cf name")
  case (Inl e)
  from make_collateral_Inl[OF this] assms show ?thesis by blast
next
  case (Inr col)
  then show ?thesis by blast
qed

lemma from_json_loop_Inl:
  "from_json_loop web3 cf names cols0 = Inl e \<Longrightarrow>
     \<exists>name\<in>set names. make_collateral web3 cf name = Inl e"
  by (induction names arbitrary: cols0) (auto simp: bind_Inl)

lemma from_json_loop_ok:
  "\<forall>name\<in>set names. \<exists>col. make_collateral web3 cf name = Inr col \<Longrightarrow>
     \<exists>cols. from_json_loop web3 cf names cols0 = Inr cols"
  by (induction names arbitrary: cols0) (auto simp: bind_Inr)

lemma from_json_loop_made:
  "from_json_loop web3 cf names cols0 = Inr cols \<Longrightarrow>
     \<forall>name\<in>set names. \<exists>col. make_collateral web3 cf name = Inr col"
  by (induction names arbitrary: cols0) (auto simp: bind_Inr)

lemma set_update_subset: "set (AList.update k v al) \<subseteq> insert (k, v) (set al)"
  by (induction al) auto

lemma from_json_loop_mem:
  "from_json_loop web3 cf names cols0 = Inr cols \<Longrightarrow> (k, col) \<in> set cols \<Longrightarrow>
     (k, col) \<in> set cols0 \<or>
     (\<exists>name\<in>set names. make_collateral web3 cf name = Inr col \<and> k = ilk col)"
proof (induction names arbitrary: cols0)
  case Nil
  then show ?case by simp
next
  case (Cons name names)
  from Cons.prems(1) obtain c where c: "make_collateral web3 cf name = Inr c"
    and l: "from_json_loop web3 cf names (AList.update (ilk c) c cols0) = Inr cols"
    by (auto simp: bind_Inr)
  from Cons.IH[OF l Cons.prems(2)] show ?case
  proof
    assume "(k, col) \<in> set (AList.update (ilk c) c cols0)"
    then have "(k, col) = (ilk c, c) \<or> (k, col) \<in> set cols0"
      using set_update_subset by fastforce
    then show ?thesis using c by auto
  next
    assume "\<exists>name\<in>set names. make_collateral web3 cf name = Inr col \<and> k = ilk col"
    then show ?thesis by auto
  qed
qed

lemma from_json_loop_keys:
  "from_json_loop web3 cf names cols0 = Inr cols \<Longrightarrow>
     fst ` set cols = fst ` set cols0 \<union> (\<lambda>(n, s). replace CHR ''_'' CHR ''-'' n) ` set names"
proof (induction names arbitrary: cols0)
  case Nil
  then show ?case by simp
next
  case (Cons name names)
  from Cons.prems(1) obtain c where c: "make_collateral web3 cf name = Inr c"
    and l: "from_json_loop web3 cf names (AList.update (ilk c) c cols0) = Inr cols"
    by (auto simp: bind_Inr)
  have i: "ilk c = replace CHR ''_'' CHR ''-'' (fst name)" using make_collateral_Inr[OF c] by simp
  show ?case unfolding Cons.IH[OF l] dom_update i by (auto simp: case_prod_beta)
qed

lemma from_json_loop_distinct:
  "from_json_loop web3 cf names cols0 = Inr cols \<Longrightarrow> distinct (map fst cols0) \<Longrightarrow>
     distinct (map fst cols)"
proof (induction names arbitrary: cols0)
  case Nil
  then show ?case by simp
next
  case (Cons name names)
  from Cons.prems(1) obtain c where
    l: "from_json_loop web3 cf names (AList.update (ilk c) c cols0) = Inr cols"
    by (auto simp: bind_Inr)
  show ?case by (rule Cons.IH[OF l]) (simp add: distinct_update Cons.prems(2))
qed

lemma from_json_loop_order:
  "from_json_loop web3 cf names cols0 = Inr cols \<Longrightarrow> distinct (map fst names) \<Longrightarrow>
     (\<forall>n\<in>set (map fst names). replace CHR ''_'' CHR ''-'' n \<notin> fst ` set cols0) \<Longrightarrow>
     (\<forall>n\<in>set (map fst names). CHR ''-'' \<notin> set n) \<Longrightarrow>
     map fst cols = map fst cols0 @ map (\<lambda>(n, s). replace CHR ''_'' CHR ''-'' n) names"
proof (induction names arbitrary: cols0)
  case Nil
  then show ?case by simp
next
  case (Cons name names)
  from Cons.prems(1) obtain c where c: "make_collateral web3 cf name = Inr c"
    and l: "from_json_loop web3 cf names (AList.update (ilk c) c cols0) = Inr cols"
    by (auto simp: bind_Inr)
  have i: "ilk c = replace CHR ''_'' CHR ''-'' (fst name)" using make_collateral_Inr[OF c] by simp
  have fresh: "ilk c \<notin> fst ` set cols0" using Cons.prems(3) i by simp
  then have keys: "map fst (AList.update (ilk c) c cols0) = map fst cols0 @ [ilk c]"
    by (simp add: update_keys)
  have inj: "replace CHR ''_'' CHR ''-'' n \<noteq> ilk c" if "n \<in> set (map fst names)" for n
  proof
    assume e: "replace CHR ''_'' CHR ''-'' n = ilk c"
    have "CHR ''-'' \<notin> set n" "CHR ''-'' \<notin> set (fst name)" using Cons.prems(4) that by auto
    then have "n = fst name" using e i by (metis replace_back)
    then show False using Cons.prems(2) that by auto
  qed
  have "map fst cols = map fst (AList.update (ilk c) c cols0) @
          map (\<lambda>(n, s). replace CHR ''_'' CHR ''-'' n) names"
  proof (rule Cons.IH[OF l])
    show "distinct (map fst names)" using Cons.prems(2) by simp
    show "\<forall>n\<in>set (map fst names).
            replace CHR ''_'' CHR ''-'' n \<notin> fst ` set (AList.update (ilk c) c cols0)"
      using Cons.prems(3) inj by (auto simp: dom_update)
    show "\<forall>n\<in>set (map fst names). CHR ''-'' \<notin> set n" using Cons.prems(4) by simp
  qed
  then show ?case using keys i by (simp add: case_prod_beta)
qed

lemma from_json_Inr_conj:
  assumes "from_json web3 cf = Inr c"
  shows "map (getitem cf) fixed_keys = map (\<lambda>h. Inr (address h)) (fixed_handles c) \<and>
         from_json_loop web3 cf (infer_collaterals_from_addresses (map fst cf)) [] =
           Inr (collaterals c)"
  using assms unfolding from_json_def bind_Inr
  apply (elim exE conjE)
  apply (simp only: sum.inject)
  apply hypsubst
  apply (simp add: fixed_keys_def fixed_handles_def new_def)
  done

lemma from_json_Inr:
  assumes "from_json web3 cf = Inr c"
  shows "map (getitem cf) fixed_keys = map (\<lambda>h. Inr (address h)) (fixed_handles c)"
    and "from_json_loop web3 cf (infer_collaterals_from_addresses (map fst cf)) [] =
           Inr (collaterals c)"
  using from_json_Inr_conj[OF assms] by simp_all

lemma from_json_Inl:
  assumes "from_json web3 cf = Inl e"
  shows "(\<exists>k\<in>set fixed_keys. k \<notin> fst ` set cf \<and> e = KeyError k) \<or>
         from_json_loop web3 cf (infer_collaterals_from_addresses (map fst cf)) [] = Inl e"
  using assms unfolding from_json_def bind_Inl getitem_Inl map_of_None_iff
  by (auto simp: fixed_keys_def)

lemma from_json_fixed_present:
  assumes "from_json web3 cf = Inr c"
  shows "set fixed_keys \<subseteq> fst ` set cf"
proof
  fix k assume "k \<in> set fixed_keys"
  then obtain i where i: "i < length fixed_keys" "fixed_keys ! i = k"
    by (meson in_set_conv_nth)
  have "map (getitem cf) fixed_keys ! i = map (\<lambda>h. Inr (address h)) (fixed_handles c) ! i"
    using from_json_Inr(1)[OF assms] by simp
  moreover have "length (fixed_handles c) = length fixed_keys"
    by (simp add: fixed_keys_def fixed_handles_def)
  ultimately have "getitem cf k = Inr (address (fixed_handles c ! i))" using i by simp
  then have "map_of cf k \<noteq> None" by (simp add: getitem_Inr)
  then show "k \<in> fst ` set cf" by (simp add: map_of_None_iff)
qed

lemma from_json_required_present:
  assumes "from_json web3 cf = Inr c"
  shows "set (required_keys cf) \<subseteq> fst ` set cf"
proof -
  have "{s, ''MCD_JOIN_'' @ n, ''PIP_'' @ s, ''MCD_FLIP_'' @ n} \<subseteq> fst ` set cf"
    if "(n, s) \<in> set (infer_collaterals_from_addresses (map fst cf))" for n s
  proof -
    from from_json_loop_made[OF from_json_Inr(2)[OF assms]] that
    obtain col where "make_collateral web3 cf (n, s) = Inr col" by blast
    from make_collateral_Inr[OF this] have
      "map_of cf s \<noteq> None" "map_of cf (''MCD_JOIN_'' @ n) \<noteq> None"
      "map_of cf (''PIP_'' @ s) \<noteq> None" "map_of cf (''MCD_FLIP_'' @ n) \<noteq> None"
      by (auto simp: getitem_Inr)
    then show ?thesis unfolding map_of_None_iff by simp
  qed
  then show ?thesis using from_json_fixed_present[OF assms]
    by (auto simp: required_keys_def)
qed

lemma concat_map_mem: "k \<in> set (f x) \<Longrightarrow> x \<in> set ys \<Longrightarrow> k \<in> set (concat (map f ys))"
  by auto

lemma from_json_Inl_required:
  assumes "from_json web3 cf = Inl e"
  shows "\<exists>k\<in>set (required_keys cf). k \<notin> fst ` set cf \<and> e = KeyError k"
proof -
  from from_json_Inl[OF assms] show ?thesis
  proof
    assume "\<exists>k\<in>set fixed_keys. k \<notin> fst ` set cf \<and> e = KeyError k"
    then show ?thesis by (auto simp: required_keys_def)
  next
    assume "from_json_loop web3 cf (infer_collaterals_from_addresses (map fst cf)) [] = Inl e"
    from from_json_loop_Inl[OF this] obtain name where
      n: "name \<in> set (infer_collaterals_from_addresses (map fst cf))"
      and m: "make_collateral web3 cf name = Inl e" by blast
    from make_collateral_Inl[OF m] obtain k where
      k: "k \<in> {snd name, ''MCD_JOIN_'' @ fst name, ''PIP_'' @ snd name, ''MCD_FLIP_'' @ fst name}"
      "k \<notin> fst ` set cf" "e = KeyError k" by blast
    have "k \<in> set (case name of (n, s) \<Rightarrow> [s, ''MCD_JOIN_'' @ n, ''PIP_'' @ s, ''MCD_FLIP_'' @ n])"
      using k(1) by (cases name) auto
    then have "k \<in> set (concat (map (\<lambda>(n, s). [s, ''MCD_JOIN_'' @ n, ''PIP_'' @ s, ''MCD_FLIP_'' @ n])
                 (infer_collaterals_from_addresses (map fst cf))))"
      using n by (intro concat_map_mem)
    then have "k \<in> set (required_keys cf)" by (simp add: required_keys_def)
    with k show ?thesis by blast
  qed
qed

text \<open>
  Claim C4. \<^verbatim>\<open>Config.from_json\<close> constructs a configuration when every name it reads is
  in the address book: the nineteen fixed names and, for every inferred pair of ilk part
  \<open>n\<close> and symbol \<open>s\<close>, the names \<open>s\<close>, \<open>MCD_JOIN_n\<close>, \<open>PIP_s\<close> and \<open>MCD_FLIP_n\<close>.
  When one of them is absent it fails with a \<^verbatim>\<open>KeyError\<close> for an absent name.
\<close>

theorem from_json_missing_key:
  "if set (required_keys cf) \<subseteq> fst ` set cf
   then \<exists>c. from_json web3 cf = Inr c
   else \<exists>k\<in>set (required_keys cf). k \<notin> fst ` set cf \<and> from_json web3 cf = Inl (KeyError k)"
proof (cases "from_json web3 cf")
  case (Inl e)
  from from_json_Inl_required[OF this] Inl show ?thesis by auto
next
  case (Inr c)
  from from_json_required_present[OF this] Inr show ?thesis by auto
qed

theorem from_json_missing_key_witness:
  "set (required_keys example_book) \<subseteq> fst ` set example_book \<and>
   (\<exists>c. from_json example_web3 example_book = Inr c) \<and>
   \<not> set (required_keys (tl example_book)) \<subseteq> fst ` set (tl example_book) \<and>
   (\<exists>k\<in>set (required_keys (tl example_book)). k \<notin> fst ` set (tl example_book) \<and>
      from_json example_web3 (tl example_book) = Inl (KeyError k))"
proof -
  have a: "set (required_keys example_book) \<subseteq> fst ` set example_book" by code_simp
  have b: "\<not> set (required_keys (tl example_book)) \<subseteq> fst ` set (tl example_book)" by code_simp
  from a b from_json_missing_key[of example_book example_web3]
    from_json_missing_key[of "tl example_book" example_web3]
  show ?thesis by simp
qed

text \<open>
  Claim C3. Every collateral that \<^verbatim>\<open>Config.from_json\<close> puts into the table comes from an
  inferred pair of ilk part \<open>n\<close> and symbol \<open>s\<close>; it is stored under its ilk name, which is
  \<open>n\<close> with hyphens for underscores, and its four handles carry the addresses the book
  holds under \<open>s\<close>, \<open>MCD_JOIN_n\<close>, \<open>PIP_s\<close> and \<open>MCD_FLIP_n\<close>.
\<close>

theorem from_json_collateral_quadruple:
  assumes "from_json web3 cf = Inr c" and "(k, col) \<in> set (collaterals c)"
  shows "\<exists>(n, s)\<in>set (infer_collaterals_from_addresses (map fst cf)).
           k = ilk col \<and> ilk col = replace CHR ''_'' CHR ''-'' n \<and>
           replace CHR ''-'' CHR ''_'' (ilk col) = n \<and>
           getitem cf s = Inr (address (gem col)) \<and>
           getitem cf (''MCD_JOIN_'' @ replace CHR ''-'' CHR ''_'' (ilk col)) =
             Inr (address (adapter col)) \<and>
           (\<exists>p. pip col = Some p \<and> getitem cf (''PIP_'' @ s) = Inr (address p)) \<and>
           getitem cf (''MCD_FLIP_'' @ replace CHR ''-'' CHR ''_'' (ilk col)) =
             Inr (address (flipper col))"
proof -
  from from_json_loop_mem[OF from_json_Inr(2)[OF assms(1)] assms(2)]
  obtain name where n: "name \<in> set (infer_collaterals_from_addresses (map fst cf))"
    and m: "make_collateral web3 cf name = Inr col" and k: "k = ilk col" by auto
  obtain n0 s where name: "name = (n0, s)" by (cases name)
  have "\<forall>c\<in>set n0. is_word c" using infer_word n name by blast
  then have "CHR ''-'' \<notin> set n0" using is_word_hyphen by blast
  then have rb: "replace CHR ''-'' CHR ''_'' (replace CHR ''_'' CHR ''-'' n0) = n0"
    by (rule replace_back)
  from make_collateral_Inr[OF m] rb k n show ?thesis
    unfolding name by (intro bexI[of _ "(n0, s)"]) auto
qed

theorem from_json_collateral_quadruple_witness:
  "from_json example_web3 example_book = Inr example_config \<and>
   (''ETH-A'', example_collateral) \<in> set (collaterals example_config) \<and>
   (\<exists>(n, s)\<in>set (infer_collaterals_from_addresses (map fst example_book)).
      ''ETH-A'' = ilk example_collateral \<and>
      ilk example_collateral = replace CHR ''_'' CHR ''-'' n \<and>
      replace CHR ''-'' CHR ''_'' (ilk example_collateral) = n \<and>
      getitem example_book s = Inr (address (gem example_collateral)) \<and>
      getitem example_book (''MCD_JOIN_'' @ replace CHR ''-'' CHR ''_'' (ilk example_collateral)) =
        Inr (address (adapter example_collateral)) \<and>
      (\<exists>p. pip example_collateral = Some p \<and>
           getitem example_book (''PIP_'' @ s) = Inr (address p)) \<and>
      getitem example_book (''MCD_FLIP_'' @ replace CHR ''-'' CHR ''_'' (ilk example_collateral)) =
        Inr (address (flipper example_collateral)))"
proof -
  have a: "from_json example_web3 example_book = Inr example_config" by (rule example_from_json)
  have b: "(''ETH-A'', example_collateral) \<in> set (collaterals example_config)"
    by (simp add: example_config_def)
  from from_json_collateral_quadruple[OF a b] a b show ?thesis by blast
qed

section \<open>The claims about inference and loading\<close>

text \<open>
  Claim C7. A deployment built from a configuration exposes every handle of the
  configuration unchanged, \<^verbatim>\<open>dai_adapter\<close> being the configuration's \<^verbatim>\<open>dai_join\<close>, and
  its \<^verbatim>\<open>to_json\<close> is the configuration's.
\<close>

theorem deployment_exposes_config:
  "dep_config (DssDeployment_init web3 config) = config \<and>
   dep_pause (DssDeployment_init web3 config) = pause config \<and>
   dep_vat (DssDeployment_init web3 config) = vat config \<and>
   dep_vow (DssDeployment_init web3 config) = vow config \<and>
   dep_jug (DssDeployment_init web3 config) = jug config \<and>
   dep_cat (DssDeployment_init web3 config) = cat config \<and>
   dep_flapper (DssDeployment_init web3 config) = flapper config \<and>
   dep_flopper (DssDeployment_init web3 config) = flopper config \<and>
   dep_pot (DssDeployment_init web3 config) = pot config \<and>
   dep_dai (DssDeployment_init web3 config) = dai config \<and>
   dep_dai_adapter (DssDeployment_init web3 config) = dai_join config \<and>
   dep_mkr (DssDeployment_init web3 config) = mkr config \<and>
   dep_collaterals (DssDeployment_init web3 config) = collaterals config \<and>
   dep_spotter (DssDeployment_init web3 config) = spotter config \<and>
   dep_ds_chief (DssDeployment_init web3 config) = ds_chief config \<and>
   dep_esm (DssDeployment_init web3 config) = esm config \<and>
   dep_end (DssDeployment_init web3 config) = end_c config \<and>
   dep_proxy_registry (DssDeployment_init web3 config) = proxy_registry config \<and>
   dep_dss_proxy_actions (DssDeployment_init web3 config) = dss_proxy_actions config \<and>
   dep_cdp_manager (DssDeployment_init web3 config) = cdp_manager config \<and>
   dep_dsr_manager (DssDeployment_init web3 config) = dsr_manager config \<and>
   DssDeployment_to_json (DssDeployment_init web3 config) = to_json config"
  by (simp add: DssDeployment_init_def DssDeployment_to_json_def)

text \<open>
  Claim C6. \<^verbatim>\<open>from_node\<close> turns the node's network version into a network name,
  \<open>mainnet\<close> for \<open>1\<close>, \<open>kovan\<close> for \<open>42\<close> and \<open>testnet\<close> for every other version, and
  loads the address book from the file \<open>config/<network>-addresses.json\<close> beside the
  module directory, through \<^verbatim>\<open>from_network\<close> and \<^verbatim>\<open>from_json\<close>.
\<close>

lemma network_name:
  "get NETWORKS v ''testnet'' =
     (if v = ''1'' then ''mainnet'' else if v = ''42'' then ''kovan'' else ''testnet'')"
  by (simp add: get_def NETWORKS_def)

lemma addresses_path_network:
  "network \<in> {''mainnet'', ''kovan'', ''testnet''} \<Longrightarrow>
     addresses_path cwd network =
       (if cwd = [] \<or> last cwd = CHR ''/'' then cwd else cwd @ ''/'') @
       ''../config/'' @ network @ ''-addresses.json''"
  by (auto simp: addresses_path_def path_join_def startswith_def)

theorem from_node_network_id:
  "(let network = (if net_version web3 = ''1'' then ''mainnet''
                   else if net_version web3 = ''42'' then ''kovan'' else ''testnet'');
        path = (if cwd = [] \<or> last cwd = CHR ''/'' then cwd else cwd @ ''/'') @
               ''../config/'' @ network @ ''-addresses.json''
    in from_node cwd fs web3 = from_network cwd fs web3 network \<and>
       from_network cwd fs web3 network =
         (case fs path of
            None \<Rightarrow> Inl (FileNotFoundError path)
          | Some cf \<Rightarrow>
              bind (from_json web3 cf) (\<lambda>config. Inr (DssDeployment_init web3 config))))"
proof -
  define network where "network = (if net_version web3 = ''1'' then ''mainnet''
                   else if net_version web3 = ''42'' then ''kovan'' else ''testnet'')"
  define path where "path = (if cwd = [] \<or> last cwd = CHR ''/'' then cwd else cwd @ ''/'') @
               ''../config/'' @ network @ ''-addresses.json''"
  have "network \<in> {''mainnet'', ''kovan'', ''testnet''}" by (simp add: network_def)
  then have p: "addresses_path cwd network = path"
    unfolding path_def by (rule addresses_path_network)
  have 1: "from_node cwd fs web3 = from_network cwd fs web3 network"
    by (simp only: from_node_def network_name network_def)
  have 2: "from_network cwd fs web3 network =
         (case fs path of
            None \<Rightarrow> Inl (FileNotFoundError path)
          | Some cf \<Rightarrow>
              bind (from_json web3 cf) (\<lambda>config. Inr (DssDeployment_init web3 config)))"
    unfolding from_network_def p DssDeployment_from_json_def ..
  from 1 2 show ?thesis unfolding Let_def network_def[symmetric] path_def[symmetric] ..
qed

text \<open>
  Claim C9, as stated, fails for a suffix that ends with an underscore: the greedy group
  must leave an underscore and one more word character, so for \<open>MCD_FLIP_A_B_\<close> the
  symbol is \<open>A\<close>, not the part \<open>A_B\<close> before the last underscore.
\<close>

theorem infer_symbol_greedy_counterexample:
  "infer_collaterals_from_addresses [''MCD_FLIP_A_B_''] = [(''A_B_'', ''A'')] \<and>
   upto_last_underscore ''A_B_'' = ''A_B''"
  by code_simp

text \<open>
  Claim C9, amended. For a key \<open>MCD_FLIP_\<close> followed by a suffix of word characters whose
  last underscore is neither its first nor its last character, the inferred symbol is the
  part of the suffix before its last underscore, not before its first one.
\<close>

theorem infer_symbol_greedy:
  assumes "\<forall>c\<in>set suf. is_word c" and "CHR ''_'' \<in> set suf"
    and "last suf \<noteq> CHR ''_''" and "upto_last_underscore suf \<noteq> []"
  shows "infer_collaterals_from_addresses [''MCD_FLIP_'' @ suf] =
           [(suf, upto_last_underscore suf)]"
proof -
  from split_list_last[OF assms(2)] obtain a b where
    ab: "suf = a @ CHR ''_'' # b" "CHR ''_'' \<notin> set b" by blast
  have u: "upto_last_underscore suf = a" unfolding ab(1) by (rule upto_last_underscore_split[OF ab(2)])
  then have a: "a \<noteq> []" using assms(4) by simp
  have b: "b \<noteq> []" using assms(3) ab(1) by auto
  have nb: "CHR ''_'' \<notin> set (butlast b)" using ab(2) by (meson in_set_butlastD)
  have "infer_collaterals_from_addresses [''MCD_FLIP_'' @ a @ CHR ''_'' # b] = [(a @ CHR ''_'' # b, a)]"
    using assms(1) unfolding ab(1) by (intro infer_key_inner a b nb)
  then show ?thesis unfolding u unfolding ab(1) .
qed

theorem infer_symbol_greedy_witness:
  "list_all is_word ''A_B_C'' \<and> CHR ''_'' \<in> set ''A_B_C'' \<and> last ''A_B_C'' \<noteq> CHR ''_'' \<and>
   upto_last_underscore ''A_B_C'' \<noteq> [] \<and>
   infer_collaterals_from_addresses [''MCD_FLIP_A_B_C''] = [(''A_B_C'', ''A_B'')]"
proof -
  have a: "\<forall>c\<in>set ''A_B_C''. is_word c" by (simp add: is_word_def)
  have b: "CHR ''_'' \<in> set ''A_B_C''" by simp
  have c: "last ''A_B_C'' \<noteq> CHR ''_''" by simp
  have d: "upto_last_underscore ''A_B_C'' = ''A_B''" by code_simp
  then have e: "upto_last_underscore ''A_B_C'' \<noteq> []" by simp
  from infer_symbol_greedy[OF a b c e] a b c d e show ?thesis by (simp add: list_all_iff)
qed

lemma from_json_table:
  assumes "from_json web3 cf = Inr c"
  shows "distinct (map fst (collaterals c))"
    and "set (map fst (collaterals c)) =
           (\<lambda>(n, s). replace CHR ''_'' CHR ''-'' n) `
             set (infer_collaterals_from_addresses (map fst cf))"
    and "\<forall>(k, col)\<in>set (collaterals c). ilk col = k"
    and "distinct (map fst (infer_collaterals_from_addresses (map fst cf))) \<longrightarrow>
           map fst (collaterals c) =
             map (\<lambda>(n, s). replace CHR ''_'' CHR ''-'' n)
               (infer_collaterals_from_addresses (map fst cf))"
proof -
  note l = from_json_Inr(2)[OF assms]
  show "distinct (map fst (collaterals c))" using from_json_loop_distinct[OF l] by simp
  show "set (map fst (collaterals c)) =
           (\<lambda>(n, s). replace CHR ''_'' CHR ''-'' n) `
             set (infer_collaterals_from_addresses (map fst cf))"
    using from_json_loop_keys[OF l] by simp
  show "\<forall>(k, col)\<in>set (collaterals c). ilk col = k"
    using from_json_loop_mem[OF l] by auto
  show "distinct (map fst (infer_collaterals_from_addresses (map fst cf))) \<longrightarrow>
           map fst (collaterals c) =
             map (\<lambda>(n, s). replace CHR ''_'' CHR ''-'' n)
               (infer_collaterals_from_addresses (map fst cf))"
  proof
    assume d: "distinct (map fst (infer_collaterals_from_addresses (map fst cf)))"
    have h: "\<forall>n\<in>set (map fst (infer_collaterals_from_addresses (map fst cf))). CHR ''-'' \<notin> set n"
    proof
      fix n assume "n \<in> set (map fst (infer_collaterals_from_addresses (map fst cf)))"
      then obtain s where "(n, s) \<in> set (infer_collaterals_from_addresses (map fst cf))" by auto
      then have "\<forall>c\<in>set n. is_word c" using infer_word by blast
      then show "CHR ''-'' \<notin> set n" using is_word_hyphen by blast
    qed
    show "map fst (collaterals c) =
             map (\<lambda>(n, s). replace CHR ''_'' CHR ''-'' n)
               (infer_collaterals_from_addresses (map fst cf))"
      using from_json_loop_order[OF l d _ h] by simp
  qed
qed

text \<open>
  Claim C5, as stated, fails for a suffix with an underscore at its end: the first
  pattern does not match \<open>MCD_FLIP_A_\<close>, so the whole suffix \<open>A_\<close> is both ilk part and
  symbol although it holds an underscore.
\<close>

theorem infer_collaterals_pattern_counterexample:
  "infer_collaterals_from_addresses [''MCD_FLIP_A_''] = [(''A_'', ''A_'')] \<and>
   CHR ''_'' \<in> set ''A_'' \<and> upto_last_underscore ''A_'' = ''A''"
  by code_simp

text \<open>
  Claim C5, amended. The inferred pairs depend on the keys alone. Each key gives at most
  one pair, and gives one exactly when \<open>MCD_FLIP_\<close> followed by a word character occurs in
  it. The ilk part of a pair is a run of word characters that follows \<open>MCD_FLIP_\<close> in a
  key up to the next non-word character, and the symbol is the part of it before its last
  underscore that is neither its first nor its last character, or the whole ilk part
  when it has no such underscore. The table of \<^verbatim>\<open>from_json\<close> is keyed by the hyphenated
  ilk parts of the pairs, one entry for each distinct ilk part, in the order of the pairs
  when their ilk parts differ.
\<close>

theorem infer_collaterals_pattern:
  "(\<forall>key. length (infer_collaterals_from_addresses [key]) \<le> 1 \<and>
      (infer_collaterals_from_addresses [key] \<noteq> [] \<longleftrightarrow>
         (\<exists>pre c suf. key = pre @ ''MCD_FLIP_'' @ c # suf \<and> is_word c))) \<and>
   infer_collaterals_from_addresses keys =
     concat (map (\<lambda>key. infer_collaterals_from_addresses [key]) keys) \<and>
   (\<forall>(n, s)\<in>set (infer_collaterals_from_addresses keys).
      n \<noteq> [] \<and> (\<forall>c\<in>set n. is_word c) \<and> s = symbol_of n \<and>
      (\<exists>key\<in>set keys. \<exists>pre rest. key = pre @ ''MCD_FLIP_'' @ n @ rest \<and>
         (rest = [] \<or> \<not> is_word (hd rest)))) \<and>
   (suf \<noteq> [] \<and> (\<forall>c\<in>set suf. is_word c) \<longrightarrow>
      infer_collaterals_from_addresses [''MCD_FLIP_'' @ suf] = [(suf, symbol_of suf)]) \<and>
   (from_json web3 cf = Inr c \<longrightarrow>
      distinct (map fst (collaterals c)) \<and>
      set (map fst (collaterals c)) =
        (\<lambda>(n, s). replace CHR ''_'' CHR ''-'' n) `
          set (infer_collaterals_from_addresses (map fst cf)) \<and>
      (\<forall>(k, col)\<in>set (collaterals c). ilk col = k) \<and>
      (distinct (map fst (infer_collaterals_from_addresses (map fst cf))) \<longrightarrow>
         map fst (collaterals c) =
           map (\<lambda>(n, s). replace CHR ''_'' CHR ''-'' n)
             (infer_collaterals_from_addresses (map fst cf))))"
proof (intro conjI)
  show "\<forall>key. length (infer_collaterals_from_addresses [key]) \<le> 1 \<and>
      (infer_collaterals_from_addresses [key] \<noteq> [] \<longleftrightarrow>
         (\<exists>pre c suf. key = pre @ ''MCD_FLIP_'' @ c # suf \<and> is_word c))"
    by (intro allI conjI infer_single_length infer_single_occurs)
  show "infer_collaterals_from_addresses keys =
     concat (map (\<lambda>key. infer_collaterals_from_addresses [key]) keys)"
    by (rule infer_concat)
  show "\<forall>(n, s)\<in>set (infer_collaterals_from_addresses keys).
      n \<noteq> [] \<and> (\<forall>c\<in>set n. is_word c) \<and> s = symbol_of n \<and>
      (\<exists>key\<in>set keys. \<exists>pre rest. key = pre @ ''MCD_FLIP_'' @ n @ rest \<and>
         (rest = [] \<or> \<not> is_word (hd rest)))"
  proof (clarify)
    fix n s assume m: "(n, s) \<in> set (infer_collaterals_from_addresses keys)"
    from infer_word[OF m] infer_shape[OF m]
    show "n \<noteq> [] \<and> (\<forall>c\<in>set n. is_word c) \<and> s = symbol_of n \<and>
      (\<exists>key\<in>set keys. \<exists>pre rest. key = pre @ ''MCD_FLIP_'' @ n @ rest \<and>
         (rest = [] \<or> \<not> is_word (hd rest)))"
      by (intro conjI) simp_all
  qed
  show "suf \<noteq> [] \<and> (\<forall>c\<in>set suf. is_word c) \<longrightarrow>
      infer_collaterals_from_addresses [''MCD_FLIP_'' @ suf] = [(suf, symbol_of suf)]"
  proof
    assume a: "suf \<noteq> [] \<and> (\<forall>c\<in>set suf. is_word c)"
    show "infer_collaterals_from_addresses [''MCD_FLIP_'' @ suf] = [(suf, symbol_of suf)]"
      by (rule infer_key) (simp_all add: a)
  qed
  show "from_json web3 cf = Inr c \<longrightarrow>
      distinct (map fst (collaterals c)) \<and>
      set (map fst (collaterals c)) =
        (\<lambda>(n, s). replace CHR ''_'' CHR ''-'' n) `
          set (infer_collaterals_from_addresses (map fst cf)) \<and>
      (\<forall>(k, col)\<in>set (collaterals c). ilk col = k) \<and>
      (distinct (map fst (infer_collaterals_from_addresses (map fst cf))) \<longrightarrow>
         map fst (collaterals c) =
           map (\<lambda>(n, s). replace CHR ''_'' CHR ''-'' n)
             (infer_collaterals_from_addresses (map fst cf)))"
  proof
    assume ok: "from_json web3 cf = Inr c"
    from from_json_table[OF ok]
    show "distinct (map fst (collaterals c)) \<and>
      set (map fst (collaterals c)) =
        (\<lambda>(n, s). replace CHR ''_'' CHR ''-'' n) `
          set (infer_collaterals_from_addresses (map fst cf)) \<and>
      (\<forall>(k, col)\<in>set (collaterals c). ilk col = k) \<and>
      (distinct (map fst (infer_collaterals_from_addresses (map fst cf))) \<longrightarrow>
         map fst (collaterals c) =
           map (\<lambda>(n, s). replace CHR ''_'' CHR ''-'' n)
             (infer_collaterals_from_addresses (map fst cf)))"
      by (intro conjI)
  qed
qed

theorem infer_collaterals_pattern_witness:
  "''ETH_A'' \<noteq> [] \<and> list_all is_word ''ETH_A'' \<and>
   infer_collaterals_from_addresses [''MCD_FLIP_ETH_A''] = [(''ETH_A'', ''ETH'')] \<and>
   (''ETH_A'', ''ETH'') \<in> set (infer_collaterals_from_addresses (map fst example_book)) \<and>
   ''ETH'' = symbol_of ''ETH_A'' \<and>
   from_json example_web3 example_book = Inr example_config \<and>
   distinct (map fst (infer_collaterals_from_addresses (map fst example_book))) \<and>
   map fst (collaterals example_config) = [''ETH-A'']"
proof -
  have a: "''ETH_A'' \<noteq> [] \<and> (\<forall>c\<in>set ''ETH_A''. is_word c)" by (simp add: is_word_def)
  have b: "(''ETH_A'', ''ETH'') \<in> set (infer_collaterals_from_addresses (map fst example_book))"
    by code_simp
  have c: "from_json example_web3 example_book = Inr example_config" by (rule example_from_json)
  have d: "infer_collaterals_from_addresses (map fst example_book) = [(''ETH_A'', ''ETH'')]"
    by code_simp
  have e: "symbol_of ''ETH_A'' = ''ETH''" by code_simp
  note t = infer_collaterals_pattern[of "map fst example_book" "''ETH_A''" example_web3
      example_book example_config]
  from t a e have 1: "infer_collaterals_from_addresses [''MCD_FLIP_ETH_A''] = [(''ETH_A'', ''ETH'')]"
    by simp
  from t b have 2: "''ETH'' = symbol_of ''ETH_A''" by blast
  from t c d have 3: "map fst (collaterals example_config) = [''ETH-A'']"
    by (simp add: replace_def)
  from a b c d 1 2 3 show ?thesis by (simp add: list_all_iff)
qed

section \<open>Properties of \<^verbatim>\<open>to_dict\<close>\<close>

lemma search_symbol_gem_symbol:
  assumes "symbol_named col"
  shows "search_symbol (ilk col) = Some (gem_symbol (ilk col))"
proof -
  let ?N = "ilk col"
  let ?S = "takeWhile (\<lambda>c. c \<noteq> CHR ''-'') ?N"
  let ?R = "dropWhile (\<lambda>c. c \<noteq> CHR ''-'') ?N"
  from assms have ne: "?S \<noteq> []" and w: "\<forall>c\<in>set ?S. is_word c"
    by (simp_all add: symbol_named_def gem_symbol_def list_all_iff)
  have r: "takeWhile is_word ?R = []"
  proof (cases ?R)
    case Nil
    show ?thesis unfolding Nil by simp
  next
    case (Cons h t)
    then have "h = CHR ''-''" using hd_dropWhile[of "\<lambda>c. c \<noteq> CHR ''-''" ?N] by force
    then show ?thesis using Cons by (simp add: is_word_hyphen)
  qed
  have "takeWhile is_word (?S @ ?R) = ?S @ takeWhile is_word ?R"
    using w by (intro takeWhile_append2) simp
  then have tw: "takeWhile is_word ?N = ?S" using r by simp
  obtain c cs where N: "?N = c # cs" using ne by (cases ?N) auto
  then have "c \<in> set ?S" using ne by (auto split: if_splits)
  then have "is_word c" using w by blast
  then have "search_symbol ?N = Some (takeWhile is_word ?N)" unfolding N by simp
  then show ?thesis by (simp only: tw gem_symbol_def)
qed

lemma to_dict_loop_foldl:
  "\<forall>col\<in>set cols. symbol_named col \<Longrightarrow>
     to_dict_loop cols d =
       Inr (foldl (\<lambda>d (k, v). AList.update k v d) d (concat (map collateral_entries cols)))"
proof (induction cols arbitrary: d)
  case Nil
  show ?case by simp
next
  case (Cons col cols)
  have s: "search_symbol (ilk col) = Some (gem_symbol (ilk col))"
    using Cons.prems by (intro search_symbol_gem_symbol) simp
  have r: "\<forall>col\<in>set cols. symbol_named col" using Cons.prems by simp
  show ?case
    by (simp add: s Let_def Cons.IH[OF r] collateral_entries_def split: option.splits)
qed

lemma foldl_update_keys:
  "fst ` set (foldl (\<lambda>d (k, v). AList.update k v d) d ws) = fst ` set d \<union> fst ` set ws"
proof (induction ws arbitrary: d)
  case Nil
  show ?case by simp
next
  case (Cons w ws)
  obtain k v where w: "w = (k, v)" by (cases w)
  have "fst ` set (foldl (\<lambda>d (k, v). AList.update k v d) (AList.update k v d) ws) =
        fst ` set (AList.update k v d) \<union> fst ` set ws" by (rule Cons.IH)
  then show ?case unfolding w dom_update by auto
qed

lemma foldl_update_distinct:
  "distinct (map fst d) \<Longrightarrow> distinct (map fst (foldl (\<lambda>d (k, v). AList.update k v d) d ws))"
  by (induction ws arbitrary: d) (auto simp: distinct_update)

lemma update_same_set:
  assumes "distinct (map fst d)" and "single_valued (insert (k, v) (set d))"
  shows "set (AList.update k v d) = insert (k, v) (set d)"
proof (cases "k \<in> fst ` set d")
  case True
  then obtain v' where v': "(k, v') \<in> set d" by auto
  then have "v' = v" using assms(2) by (auto simp: single_valued_def)
  then have "map_of d k = Some v" using v' assms(1) by simp
  then have "AList.update k v d = d" by (rule update_triv)
  then show ?thesis using v' \<open>v' = v\<close> by auto
next
  case False
  then show ?thesis by (induction d) auto
qed

lemma foldl_update_set:
  "distinct (map fst d) \<Longrightarrow> single_valued (set d \<union> set ws) \<Longrightarrow>
     set (foldl (\<lambda>d (k, v). AList.update k v d) d ws) = set d \<union> set ws"
proof (induction ws arbitrary: d)
  case Nil
  show ?case by simp
next
  case (Cons w ws)
  obtain k v where w: "w = (k, v)" by (cases w)
  have sv: "single_valued (insert (k, v) (set d))"
    using Cons.prems(2) unfolding w by (rule single_valued_subset[rotated]) auto
  have s: "set (AList.update k v d) = insert (k, v) (set d)"
    by (rule update_same_set[OF Cons.prems(1) sv])
  have "set (foldl (\<lambda>d (k, v). AList.update k v d) (AList.update k v d) ws) =
        set (AList.update k v d) \<union> set ws"
  proof (rule Cons.IH)
    show "distinct (map fst (AList.update k v d))" using Cons.prems(1) by (simp add: distinct_update)
    show "single_valued (set (AList.update k v d) \<union> set ws)"
      using Cons.prems(2) unfolding s w by (rule single_valued_subset[rotated]) auto
  qed
  then show ?case unfolding w s by auto
qed

lemma to_dict_unfold:
  assumes "\<forall>col\<in>set (map snd (collaterals c)). symbol_named col"
  shows "to_dict c =
           Inr (foldl (\<lambda>d (k, v). AList.update k v d)
                  (zip fixed_keys (map address (fixed_handles c)))
                  (concat (map collateral_entries (map snd (collaterals c)))))"
proof -
  have "zip fixed_keys (map address (fixed_handles c)) =
       [(''MCD_PAUSE'', address (pause c)),
        (''MCD_VAT'', address (vat c)),
        (''MCD_VOW'', address (vow c)),
        (''MCD_JUG'', address (jug c)),
        (''MCD_CAT'', address (cat c)),
        (''MCD_FLAP'', address (flapper c)),
        (''MCD_FLOP'', address (flopper c)),
        (''MCD_POT'', address (pot c)),
        (''MCD_DAI'', address (dai c)),
        (''MCD_JOIN_DAI'', address (dai_join c)),
        (''MCD_GOV'', address (mkr c)),
        (''MCD_SPOT'', address (spotter c)),
        (''MCD_ADM'', address (ds_chief c)),
        (''MCD_ESM'', address (esm c)),
        (''MCD_END'', address (end_c c)),
        (''PROXY_REGISTRY'', address (proxy_registry c)),
        (''PROXY_ACTIONS_DSR'', address (dss_proxy_actions c)),
        (''CDP_MANAGER'', address (cdp_manager c)),
        (''DSR_MANAGER'', address (dsr_manager c))]"
    by (simp add: fixed_keys_def fixed_handles_def)
  then show ?thesis unfolding to_dict_def using to_dict_loop_foldl[OF assms] by simp
qed

lemma fixed_keys_distinct: "distinct fixed_keys"
  by (simp add: fixed_keys_def)

lemma fixed_zip_keys: "map fst (zip fixed_keys (map address (fixed_handles c))) = fixed_keys"
  by (simp add: fixed_keys_def fixed_handles_def)

lemma to_dict_set:
  assumes "\<forall>col\<in>set (map snd (collaterals c)). symbol_named col"
    and "single_valued (set (address_book c))"
  shows "\<exists>d. to_dict c = Inr d \<and> distinct (map fst d) \<and> set d = set (address_book c)"
proof -
  let ?init = "zip fixed_keys (map address (fixed_handles c))"
  let ?ws = "concat (map collateral_entries (map snd (collaterals c)))"
  let ?res = "foldl (\<lambda>d (k, v). AList.update k v d) ?init ?ws"
  have d0: "distinct (map fst ?init)" by (simp only: fixed_zip_keys fixed_keys_distinct)
  have sv: "single_valued (set ?init \<union> set ?ws)" using assms(2) by (simp add: address_book_def)
  have "set ?res = set ?init \<union> set ?ws" by (rule foldl_update_set[OF d0 sv])
  then have "set ?res = set (address_book c)" by (simp add: address_book_def)
  moreover have "distinct (map fst ?res)" using foldl_update_distinct[OF d0] by simp
  ultimately show ?thesis using to_dict_unfold[OF assms(1)] by blast
qed

lemma to_dict_keys:
  assumes "\<forall>col\<in>set (map snd (collaterals c)). symbol_named col"
  shows "\<exists>d. to_dict c = Inr d \<and> distinct (map fst d) \<and>
             fst ` set d = fst ` set (address_book c)"
proof -
  let ?init = "zip fixed_keys (map address (fixed_handles c))"
  let ?ws = "concat (map collateral_entries (map snd (collaterals c)))"
  let ?res = "foldl (\<lambda>d (k, v). AList.update k v d) ?init ?ws"
  have d0: "distinct (map fst ?init)" by (simp only: fixed_zip_keys fixed_keys_distinct)
  have "fst ` set ?res = fst ` set ?init \<union> fst ` set ?ws" by (rule foldl_update_keys)
  then have "fst ` set ?res = fst ` set (address_book c)"
    by (simp add: address_book_def image_Un)
  moreover have "distinct (map fst ?res)" using foldl_update_distinct[OF d0] by simp
  ultimately show ?thesis using to_dict_unfold[OF assms(1)] by blast
qed

lemma distinct_single_valued: "distinct (map fst al) \<Longrightarrow> single_valued (set al)"
  unfolding single_valued_def by (metis eq_key_imp_eq_value)

text \<open>
  Claim C2, as stated, fails when two collaterals share a symbol and differ in their
  gems: both write the key of the symbol, and the later one wins. Here \<open>ETH-A\<close> has the
  gem \<open>0xa1\<close>, and \<^verbatim>\<open>to_dict\<close> maps \<open>ETH\<close> to the gem \<open>0xb1\<close> of \<open>ETH-B\<close>.
\<close>

theorem to_dict_address_book_counterexample:
  "(''ETH-A'', example_collateral) \<in> set (collaterals two_gem_config) \<and>
   gem_symbol (ilk example_collateral) = ''ETH'' \<and>
   address (gem example_collateral) = ''0xa1'' \<and>
   bind (to_dict two_gem_config) (\<lambda>d. getitem d ''ETH'') = Inr ''0xb1''"
  by code_simp

text \<open>
  Claim C2, amended. For every configuration in which each ilk name begins with its
  symbol (a non-empty run of word characters that ends at the first hyphen of the name or
  at its end) and in which the address book described by the naming convention gives no
  key two different addresses, \<^verbatim>\<open>to_dict\<close> returns a flat map with pairwise different
  keys that holds exactly the entries of that address book: the nineteen fixed keys with
  the addresses of their handles and, for every collateral, the keys \<open>S\<close>, \<open>PIP_S\<close> (when
  a price feed is present), \<open>MCD_JOIN_N\<close> and \<open>MCD_FLIP_N\<close> with the gem, price-feed,
  adapter and flipper addresses, and no other keys.
\<close>

theorem to_dict_address_book:
  assumes "\<forall>col\<in>set (map snd (collaterals c)). symbol_named col"
    and "single_valued (set (address_book c))"
  shows "\<exists>d. to_dict c = Inr d \<and> distinct (map fst d) \<and> set d = set (address_book c)"
  using to_dict_set[OF assms] .

theorem to_dict_address_book_witness:
  "list_all symbol_named (map snd (collaterals example_config)) \<and>
   single_valued (set (address_book example_config)) \<and>
   to_dict example_config = Inr example_book \<and>
   distinct (map fst example_book) \<and>
   set example_book = set (address_book example_config)"
proof -
  have a: "list_all symbol_named (map snd (collaterals example_config))" by code_simp
  then have a': "\<forall>col\<in>set (map snd (collaterals example_config)). symbol_named col"
    by (simp only: list_all_iff)
  have "distinct (map fst (address_book example_config))" by code_simp
  then have b: "single_valued (set (address_book example_config))"
    by (rule distinct_single_valued)
  have c: "to_dict example_config = Inr example_book" by code_simp
  from to_dict_address_book[OF a' b] c
  have "distinct (map fst example_book) \<and> set example_book = set (address_book example_config)"
    by simp
  with a b c show ?thesis by simp
qed

section \<open>Keys that follow the naming convention\<close>

lemma alnumD:
  assumes "alnum s"
  shows "s \<noteq> []" and "\<forall>c\<in>set s. is_word c" and "CHR ''_'' \<notin> set s" and "CHR ''-'' \<notin> set s"
  using assms is_word_hyphen by (auto simp: alnum_def list_all_iff)

lemma replace_id: "a \<notin> set s \<Longrightarrow> replace a b s = s"
  by (induction s) (auto simp: replace_def)

lemma replace_append: "replace a b (x @ y) = replace a b x @ replace a b y"
  by (simp add: replace_def)

lemma replace_Cons: "replace a b (c # y) = (if c = a then b else c) # replace a b y"
  by (simp add: replace_def)

lemma conventional_cases:
  assumes "conventional_ilk N"
  obtains (plain) "N = gem_symbol N" "alnum N"
  | (sub) T where "N = gem_symbol N @ CHR ''-'' # T" "alnum (gem_symbol N)" "alnum T"
proof (cases "dropWhile (\<lambda>c. c \<noteq> CHR ''-'') N")
  case Nil
  have "N = takeWhile (\<lambda>c. c \<noteq> CHR ''-'') N @ dropWhile (\<lambda>c. c \<noteq> CHR ''-'') N" by simp
  then have "N = gem_symbol N" unfolding Nil gem_symbol_def by simp
  moreover have "alnum (gem_symbol N)" using assms by (simp add: conventional_ilk_def)
  ultimately show ?thesis using plain by simp
next
  case (Cons h T)
  then have h: "h = CHR ''-''" using hd_dropWhile[of "\<lambda>c. c \<noteq> CHR ''-''" N] by force
  have "N = takeWhile (\<lambda>c. c \<noteq> CHR ''-'') N @ dropWhile (\<lambda>c. c \<noteq> CHR ''-'') N" by simp
  then have "N = gem_symbol N @ CHR ''-'' # T" unfolding Cons h gem_symbol_def .
  moreover have "alnum (gem_symbol N)" "alnum T"
    using assms Cons by (simp_all add: conventional_ilk_def)
  ultimately show ?thesis using sub by blast
qed

lemma conventional_symbol_named: "conventional_ilk (ilk col) \<Longrightarrow> symbol_named col"
  by (auto simp: conventional_ilk_def symbol_named_def alnum_def list_all_iff)

text \<open>The key suffix of a conventional ilk name.\<close>

lemma conventional_suffix:
  assumes "conventional_ilk N"
  shows "replace CHR ''-'' CHR ''_'' N \<noteq> []"
    and "\<forall>c\<in>set (replace CHR ''-'' CHR ''_'' N). is_word c"
    and "symbol_of (replace CHR ''-'' CHR ''_'' N) = gem_symbol N"
    and "replace CHR ''_'' CHR ''-'' (replace CHR ''-'' CHR ''_'' N) = N"
    and "length (filter (\<lambda>c. c = CHR ''_'') (replace CHR ''-'' CHR ''_'' N)) \<le> 1"
proof -
  let ?S = "gem_symbol N"
  let ?R = "replace CHR ''-'' CHR ''_'' N"
  have "?R \<noteq> [] \<and> (\<forall>c\<in>set ?R. is_word c) \<and> symbol_of ?R = ?S \<and>
        replace CHR ''_'' CHR ''-'' ?R = N \<and> length (filter (\<lambda>c. c = CHR ''_'') ?R) \<le> 1"
    using assms
  proof (cases rule: conventional_cases)
    case plain
    note a = alnumD[OF plain(2)]
    have r: "?R = N" using a(4) by (rule replace_id)
    have "set (tl (butlast N)) \<subseteq> set (butlast N)"
      by (cases "butlast N") auto
    moreover have "set (butlast N) \<subseteq> set N" by (auto dest: in_set_butlastD)
    ultimately have "set (tl (butlast N)) \<subseteq> set N" by blast
    then have "CHR ''_'' \<notin> set (tl (butlast N))" using a(3) by blast
    then have "symbol_of N = N" by (rule symbol_of_whole)
    moreover have "replace CHR ''_'' CHR ''-'' N = N" using a(3) by (rule replace_id)
    moreover have "filter (\<lambda>c. c = CHR ''_'') N = []" using a(3) by (auto simp: filter_empty_conv)
    ultimately show ?thesis unfolding r using a(1,2) plain(1) by simp
  next
    case (sub T)
    note a = alnumD[OF sub(2)] and b = alnumD[OF sub(3)]
    have "replace CHR ''-'' CHR ''_'' (?S @ CHR ''-'' # T) = ?S @ CHR ''_'' # T"
      by (simp add: replace_append replace_Cons replace_id a(4) b(4))
    then have r: "?R = ?S @ CHR ''_'' # T" using sub(1) by simp
    have "CHR ''_'' \<notin> set (butlast T)" using b(3) by (meson in_set_butlastD)
    then have 1: "symbol_of (?S @ CHR ''_'' # T) = ?S" by (intro symbol_of_split a(1) b(1))
    have "replace CHR ''_'' CHR ''-'' (?S @ CHR ''_'' # T) = ?S @ CHR ''-'' # T"
      by (simp add: replace_append replace_Cons replace_id a(3) b(3))
    then have 2: "replace CHR ''_'' CHR ''-'' (?S @ CHR ''_'' # T) = N" using sub(1) by simp
    have "filter (\<lambda>c. c = CHR ''_'') ?S = []" "filter (\<lambda>c. c = CHR ''_'') T = []"
      using a(3) b(3) by (auto simp: filter_empty_conv)
    then have 3: "length (filter (\<lambda>c. c = CHR ''_'') (?S @ CHR ''_'' # T)) \<le> 1" by simp
    have 4: "\<forall>c\<in>set (?S @ CHR ''_'' # T). is_word c"
      using a(2) b(2) is_word_underscore by auto
    show ?thesis unfolding r using 1 2 3 4 by simp
  qed
  then show "?R \<noteq> []" "\<forall>c\<in>set ?R. is_word c" "symbol_of ?R = ?S"
    "replace CHR ''_'' CHR ''-'' ?R = N" "length (filter (\<lambda>c. c = CHR ''_'') ?R) \<le> 1"
    by simp_all
qed

lemma infer_flip_key:
  assumes "conventional_ilk N"
  shows "infer_collaterals_from_addresses [''MCD_FLIP_'' @ replace CHR ''-'' CHR ''_'' N] =
           [(replace CHR ''-'' CHR ''_'' N, gem_symbol N)]"
  using infer_key[OF conventional_suffix(2,1)[OF assms]] conventional_suffix(3)[OF assms]
  by simp

lemma occ_two_underscores:
  assumes "startswith (drop p s) ''MCD_FLIP_''"
  shows "2 \<le> length (filter (\<lambda>c. c = CHR ''_'') s)"
proof -
  from assms have t: "take 9 (drop p s) = ''MCD_FLIP_''" by (simp add: startswith_flip)
  have "s = take p s @ take 9 (drop p s) @ drop 9 (drop p s)"
    by (simp only: append_take_drop_id)
  then have "s = take p s @ ''MCD_FLIP_'' @ drop 9 (drop p s)" unfolding t .
  then have "filter (\<lambda>c. c = CHR ''_'') s =
      filter (\<lambda>c. c = CHR ''_'') (take p s @ ''MCD_FLIP_'' @ drop 9 (drop p s))" by simp
  then show ?thesis by simp
qed

lemma few_underscores_no_flip:
  assumes "length (filter (\<lambda>c. c = CHR ''_'') s) \<le> 1"
  shows "search_flip s = None"
proof (rule no_occ_search_flip, intro allI notI)
  fix p assume "startswith (drop p s) ''MCD_FLIP_''"
  from occ_two_underscores[OF this] assms show False by simp
qed

lemma search_flip_None_infer:
  "search_flip key = None \<Longrightarrow> infer_collaterals_from_addresses [key] = []"
  using search_flip_None_imp_sym[of key] by (simp add: infer_single)

lemma infer_symbol_key:
  assumes "alnum S"
  shows "infer_collaterals_from_addresses [S] = []"
proof -
  have "filter (\<lambda>c. c = CHR ''_'') S = []" using alnumD(3)[OF assms] by (auto simp: filter_empty_conv)
  then have "search_flip S = None" by (intro few_underscores_no_flip) simp
  then show ?thesis by (rule search_flip_None_infer)
qed

lemma infer_pip_key:
  assumes "alnum S"
  shows "infer_collaterals_from_addresses [''PIP_'' @ S] = []"
proof -
  have "filter (\<lambda>c. c = CHR ''_'') S = []" using alnumD(3)[OF assms] by (auto simp: filter_empty_conv)
  then have "search_flip (''PIP_'' @ S) = None" by (intro few_underscores_no_flip) simp
  then show ?thesis by (rule search_flip_None_infer)
qed

lemma search_flip_join: "search_flip (''MCD_JOIN_'' @ x) = search_flip x"
proof -
  have a: "search_flip (''CD_JOIN_'' @ x) = search_flip x"
    by (simp add: search_flip_skip del: search_flip.simps)
  have "match_flip (CHR ''M'' # (''CD_JOIN_'' @ x)) = None"
    by (simp add: match_flip_def startswith_def)
  then have "search_flip (CHR ''M'' # (''CD_JOIN_'' @ x)) = search_flip (''CD_JOIN_'' @ x)"
    by (simp only: search_flip.simps option.case)
  then show ?thesis unfolding a by simp
qed

lemma infer_join_key:
  assumes "conventional_ilk N"
  shows "infer_collaterals_from_addresses [''MCD_JOIN_'' @ replace CHR ''-'' CHR ''_'' N] = []"
proof -
  have "search_flip (replace CHR ''-'' CHR ''_'' N) = None"
    using conventional_suffix(5)[OF assms] by (rule few_underscores_no_flip)
  then show ?thesis by (intro search_flip_None_infer) (simp only: search_flip_join)
qed

lemma infer_fixed_keys: "infer_collaterals_from_addresses fixed_keys = []"
  by code_simp

lemma infer_subset:
  "key \<in> set keys \<Longrightarrow>
     set (infer_collaterals_from_addresses [key]) \<subseteq> set (infer_collaterals_from_addresses keys)"
proof
  fix x assume x: "x \<in> set (infer_collaterals_from_addresses [key])"
  assume k: "key \<in> set keys"
  obtain n s where ns: "x = (n, s)" by (cases x)
  from x have "search_flip_sym key = Some (n, s) \<or>
        (search_flip_sym key = None \<and> search_flip key = Some n \<and> s = n)"
    unfolding ns infer_mem by simp
  then show "x \<in> set (infer_collaterals_from_addresses keys)"
    unfolding ns infer_mem using k by blast
qed

lemma infer_fixed_key:
  "key \<in> set fixed_keys \<Longrightarrow> infer_collaterals_from_addresses [key] = []"
  using infer_subset[of key fixed_keys] by (simp add: infer_fixed_keys)

section \<open>The round trip through the address book\<close>

lemma address_book_collateral:
  "col \<in> set (map snd (collaterals c)) \<Longrightarrow> e \<in> set (collateral_entries col) \<Longrightarrow>
     e \<in> set (address_book c)"
proof -
  assume "col \<in> set (map snd (collaterals c))" "e \<in> set (collateral_entries col)"
  then have "e \<in> set (concat (map collateral_entries (map snd (collaterals c))))"
    by (intro concat_map_mem)
  then show ?thesis unfolding address_book_def by simp
qed

lemma flip_entry:
  "(''MCD_FLIP_'' @ replace CHR ''-'' CHR ''_'' (ilk col), address (flipper col))
     \<in> set (collateral_entries col)"
  by (simp add: collateral_entries_def)

lemma to_dict_loop_single:
  assumes "symbol_named col" and "pip col = None"
  shows "\<exists>d1. to_dict_loop [col] d0 = Inr d1 \<and>
           fst ` set d1 = fst ` set d0 \<union>
             {gem_symbol (ilk col), ''MCD_JOIN_'' @ replace CHR ''-'' CHR ''_'' (ilk col),
              ''MCD_FLIP_'' @ replace CHR ''-'' CHR ''_'' (ilk col)}"
proof -
  have "to_dict_loop [col] d0 =
          Inr (foldl (\<lambda>d (k, v). AList.update k v d) d0 (concat (map collateral_entries [col])))"
    using assms(1) by (intro to_dict_loop_foldl) simp
  moreover have "fst ` set (collateral_entries col) =
      {gem_symbol (ilk col), ''MCD_JOIN_'' @ replace CHR ''-'' CHR ''_'' (ilk col),
       ''MCD_FLIP_'' @ replace CHR ''-'' CHR ''_'' (ilk col)}"
    using assms(2) by (simp add: collateral_entries_def)
  ultimately show ?thesis by (simp add: foldl_update_keys)
qed

lemma pip_required:
  assumes "(n, s) \<in> set (infer_collaterals_from_addresses (map fst d))"
  shows "''PIP_'' @ s \<in> set (required_keys d)"
proof -
  have "''PIP_'' @ s \<in> set (case (n, s) of (n, s) \<Rightarrow>
            [s, ''MCD_JOIN_'' @ n, ''PIP_'' @ s, ''MCD_FLIP_'' @ n])" by simp
  then have "''PIP_'' @ s \<in> set (concat (map (\<lambda>(n, s). [s, ''MCD_JOIN_'' @ n, ''PIP_'' @ s, ''MCD_FLIP_'' @ n])
                 (infer_collaterals_from_addresses (map fst d))))"
    using assms by (rule concat_map_mem)
  then show ?thesis by (simp add: required_keys_def)
qed

text \<open>
  Claim C8, as stated, fails when another collateral of the same symbol has a price feed:
  that collateral writes \<open>PIP_ETH\<close>, and the round trip succeeds.
\<close>

theorem round_trip_without_pip_counterexample:
  "(''ETH-A'', example_collateral\<lparr>pip := None\<rparr>) \<in> set (collaterals shared_pip_config) \<and>
   pip (example_collateral\<lparr>pip := None\<rparr>) = None \<and>
   bind (bind (to_dict shared_pip_config) (from_json example_web3))
     (\<lambda>c. Inr (map fst (collaterals c))) = Inr [''ETH-A'', ''ETH-B'']"
  by code_simp

text \<open>
  Claim C8, amended. Take a configuration whose ilk names begin with their symbols, and
  in it a collateral without a price feed whose ilk name follows the convention (a symbol
  \<open>S\<close> of letters and digits, alone or with a hyphen and a sub-type), such that no entry of
  the address book the configuration stands for is named \<open>PIP_S\<close>. Then \<^verbatim>\<open>to_dict\<close> adds
  no price-feed key for that collateral, its result has no key \<open>PIP_S\<close>, \<^verbatim>\<open>from_json\<close>
  reads \<open>PIP_S\<close> from it, and so the round trip fails with a \<^verbatim>\<open>KeyError\<close> for a missing key.
\<close>

theorem round_trip_without_pip:
  assumes "\<forall>col'\<in>set (map snd (collaterals c)). symbol_named col'"
    and "col \<in> set (map snd (collaterals c))"
    and "pip col = None"
    and "conventional_ilk (ilk col)"
    and "''PIP_'' @ gem_symbol (ilk col) \<notin> fst ` set (address_book c)"
  shows "(\<forall>d0. \<exists>d1. to_dict_loop [col] d0 = Inr d1 \<and>
            fst ` set d1 = fst ` set d0 \<union>
              {gem_symbol (ilk col), ''MCD_JOIN_'' @ replace CHR ''-'' CHR ''_'' (ilk col),
               ''MCD_FLIP_'' @ replace CHR ''-'' CHR ''_'' (ilk col)}) \<and>
         (\<exists>d. to_dict c = Inr d \<and>
            ''PIP_'' @ gem_symbol (ilk col) \<notin> fst ` set d \<and>
            ''PIP_'' @ gem_symbol (ilk col) \<in> set (required_keys d) \<and>
            (\<exists>k. k \<notin> fst ` set d \<and> from_json web3 d = Inl (KeyError k)))"
proof
  show "\<forall>d0. \<exists>d1. to_dict_loop [col] d0 = Inr d1 \<and>
            fst ` set d1 = fst ` set d0 \<union>
              {gem_symbol (ilk col), ''MCD_JOIN_'' @ replace CHR ''-'' CHR ''_'' (ilk col),
               ''MCD_FLIP_'' @ replace CHR ''-'' CHR ''_'' (ilk col)}"
    using to_dict_loop_single[OF conventional_symbol_named[OF assms(4)] assms(3)] by blast
next
  let ?S = "gem_symbol (ilk col)"
  let ?N = "replace CHR ''-'' CHR ''_'' (ilk col)"
  from to_dict_keys[OF assms(1)] obtain d where d: "to_dict c = Inr d"
    and keys: "fst ` set d = fst ` set (address_book c)" by blast
  have nopip: "''PIP_'' @ ?S \<notin> fst ` set d" using assms(5) keys by simp
  have "(''MCD_FLIP_'' @ ?N, address (flipper col)) \<in> set (address_book c)"
    using assms(2) flip_entry by (rule address_book_collateral)
  then have "''MCD_FLIP_'' @ ?N \<in> fst ` set (address_book c)" by force
  then have "''MCD_FLIP_'' @ ?N \<in> set (map fst d)" using keys by simp
  from infer_subset[OF this] infer_flip_key[OF assms(4)]
  have inf: "(?N, ?S) \<in> set (infer_collaterals_from_addresses (map fst d))" by simp
  have req: "''PIP_'' @ ?S \<in> set (required_keys d)" using inf by (rule pip_required)
  have "\<exists>k. k \<notin> fst ` set d \<and> from_json web3 d = Inl (KeyError k)"
  proof (cases "from_json web3 d")
    case (Inl e)
    from from_json_Inl_required[OF this] Inl show ?thesis by blast
  next
    case (Inr c')
    from from_json_required_present[OF this] req nopip show ?thesis by blast
  qed
  with d nopip req show "\<exists>d. to_dict c = Inr d \<and>
            ''PIP_'' @ ?S \<notin> fst ` set d \<and>
            ''PIP_'' @ ?S \<in> set (required_keys d) \<and>
            (\<exists>k. k \<notin> fst ` set d \<and> from_json web3 d = Inl (KeyError k))" by blast
qed

theorem round_trip_without_pip_witness:
  "list_all symbol_named (map snd (collaterals pipless_config)) \<and>
   example_collateral\<lparr>pip := None\<rparr> \<in> set (map snd (collaterals pipless_config)) \<and>
   pip (example_collateral\<lparr>pip := None\<rparr>) = None \<and>
   conventional_ilk (ilk (example_collateral\<lparr>pip := None\<rparr>)) \<and>
   ''PIP_ETH'' \<notin> fst ` set (address_book pipless_config) \<and>
   (\<exists>d. to_dict pipless_config = Inr d \<and> ''PIP_ETH'' \<notin> fst ` set d \<and>
      ''PIP_ETH'' \<in> set (required_keys d) \<and>
      (\<exists>k. k \<notin> fst ` set d \<and> from_json example_web3 d = Inl (KeyError k)))"
proof -
  let ?col = "example_collateral\<lparr>pip := None\<rparr>"
  have a: "list_all symbol_named (map snd (collaterals pipless_config))" by code_simp
  then have a': "\<forall>col'\<in>set (map snd (collaterals pipless_config)). symbol_named col'"
    by (simp only: list_all_iff)
  have b: "?col \<in> set (map snd (collaterals pipless_config))"
    by (simp add: pipless_config_def)
  have c: "pip ?col = None" by simp
  have d: "conventional_ilk (ilk ?col)" by code_simp
  have g: "gem_symbol (ilk ?col) = ''ETH''" by code_simp
  have "''PIP_ETH'' \<notin> set (map fst (address_book pipless_config))" by code_simp
  then have e: "''PIP_ETH'' \<notin> fst ` set (address_book pipless_config)" by simp
  have e': "''PIP_'' @ gem_symbol (ilk ?col) \<notin> fst ` set (address_book pipless_config)"
    unfolding g using e by simp
  from round_trip_without_pip[OF a' b c d e', of example_web3]
  have "\<exists>d. to_dict pipless_config = Inr d \<and> ''PIP_ETH'' \<notin> fst ` set d \<and>
      ''PIP_ETH'' \<in> set (required_keys d) \<and>
      (\<exists>k. k \<notin> fst ` set d \<and> from_json example_web3 d = Inl (KeyError k))"
    unfolding g by simp
  with a b c d e show ?thesis by blast
qed

lemma ready_entry:
  assumes "round_trip_ready c" and "(k, col) \<in> set (collaterals c)"
  shows "k = ilk col" and "conventional_ilk (ilk col)" and "\<exists>p. pip col = Some p"
  using assms by (auto simp: round_trip_ready_def list_all_iff)

lemma ready_names:
  assumes "round_trip_ready c"
  shows "\<forall>col\<in>set (map snd (collaterals c)). symbol_named col"
proof
  fix col assume "col \<in> set (map snd (collaterals c))"
  then obtain k where "(k, col) \<in> set (collaterals c)" by auto
  from ready_entry(2)[OF assms this] show "symbol_named col" by (rule conventional_symbol_named)
qed

lemma gem_entry:
  "(gem_symbol (ilk col), address (gem col)) \<in> set (collateral_entries col)"
  by (simp add: collateral_entries_def)

lemma join_entry:
  "(''MCD_JOIN_'' @ replace CHR ''-'' CHR ''_'' (ilk col), address (adapter col))
     \<in> set (collateral_entries col)"
  by (simp add: collateral_entries_def)

lemma pip_entry:
  "pip col = Some p \<Longrightarrow>
     (''PIP_'' @ gem_symbol (ilk col), address p) \<in> set (collateral_entries col)"
  by (simp add: collateral_entries_def)

lemma collateral_entries_keys:
  "e \<in> set (collateral_entries col) \<Longrightarrow>
     fst e \<in> {gem_symbol (ilk col), ''PIP_'' @ gem_symbol (ilk col),
              ''MCD_JOIN_'' @ replace CHR ''-'' CHR ''_'' (ilk col),
              ''MCD_FLIP_'' @ replace CHR ''-'' CHR ''_'' (ilk col)}"
  by (auto simp: collateral_entries_def split: option.splits)

lemma address_book_cases:
  assumes "e \<in> set (address_book c)"
  shows "fst e \<in> set fixed_keys \<or>
         (\<exists>(k, col)\<in>set (collaterals c). e \<in> set (collateral_entries col))"
proof -
  from assms have "e \<in> set (zip fixed_keys (map address (fixed_handles c))) \<or>
      e \<in> set (concat (map collateral_entries (map snd (collaterals c))))"
    by (simp add: address_book_def)
  then show ?thesis
  proof
    assume "e \<in> set (zip fixed_keys (map address (fixed_handles c)))"
    then have "fst e \<in> set fixed_keys" by (metis in_set_zipE prod.collapse)
    then show ?thesis ..
  next
    assume "e \<in> set (concat (map collateral_entries (map snd (collaterals c))))"
    then obtain col where "col \<in> set (map snd (collaterals c))" "e \<in> set (collateral_entries col)"
      by auto
    then show ?thesis by auto
  qed
qed

lemma fixed_in_address_book:
  assumes "i < length fixed_keys"
  shows "(fixed_keys ! i, address (fixed_handles c ! i)) \<in> set (address_book c)"
proof -
  have l: "length (fixed_handles c) = length fixed_keys"
    by (simp add: fixed_keys_def fixed_handles_def)
  have "zip fixed_keys (map address (fixed_handles c)) ! i =
        (fixed_keys ! i, address (fixed_handles c ! i))"
    using assms l by simp
  moreover have "i < length (zip fixed_keys (map address (fixed_handles c)))"
    using assms l by simp
  ultimately have "(fixed_keys ! i, address (fixed_handles c ! i))
      \<in> set (zip fixed_keys (map address (fixed_handles c)))" by (metis nth_mem)
  then show ?thesis by (simp add: address_book_def)
qed

lemma infer_mem_single:
  assumes "(n, s) \<in> set (infer_collaterals_from_addresses keys)"
  shows "\<exists>key\<in>set keys. infer_collaterals_from_addresses [key] \<noteq> [] \<and>
           (n, s) \<in> set (infer_collaterals_from_addresses [key])"
proof -
  from assms have "(n, s) \<in> set (concat (map (\<lambda>key. infer_collaterals_from_addresses [key]) keys))"
    by (simp only: infer_concat[symmetric])
  then obtain key where "key \<in> set keys" "(n, s) \<in> set (infer_collaterals_from_addresses [key])"
    by auto
  then show ?thesis by force
qed

lemma ready_infer_sound:
  assumes r: "round_trip_ready c" and keys: "fst ` set d = fst ` set (address_book c)"
    and m: "(n, s) \<in> set (infer_collaterals_from_addresses (map fst d))"
  shows "\<exists>(k, col)\<in>set (collaterals c).
           n = replace CHR ''-'' CHR ''_'' (ilk col) \<and> s = gem_symbol (ilk col)"
proof -
  from infer_mem_single[OF m] obtain key where key: "key \<in> set (map fst d)"
    and ne: "infer_collaterals_from_addresses [key] \<noteq> []"
    and ns: "(n, s) \<in> set (infer_collaterals_from_addresses [key])" by blast
  from key keys obtain e where e: "e \<in> set (address_book c)" "fst e = key" by auto
  from address_book_cases[OF e(1)] show ?thesis
  proof
    assume "fst e \<in> set fixed_keys"
    then have "infer_collaterals_from_addresses [key] = []" unfolding e(2) by (rule infer_fixed_key)
    with ne show ?thesis by simp
  next
    assume "\<exists>(k, col)\<in>set (collaterals c). e \<in> set (collateral_entries col)"
    then obtain k col where kc: "(k, col) \<in> set (collaterals c)"
      and ec: "e \<in> set (collateral_entries col)" by auto
    note conv = ready_entry(2)[OF r kc]
    have al: "alnum (gem_symbol (ilk col))" using conv by (simp add: conventional_ilk_def)
    from collateral_entries_keys[OF ec] e(2)
    consider "key = gem_symbol (ilk col)" | "key = ''PIP_'' @ gem_symbol (ilk col)"
      | "key = ''MCD_JOIN_'' @ replace CHR ''-'' CHR ''_'' (ilk col)"
      | "key = ''MCD_FLIP_'' @ replace CHR ''-'' CHR ''_'' (ilk col)" by auto
    then show ?thesis
    proof cases
      case 1
      then show ?thesis using ne infer_symbol_key[OF al] by simp
    next
      case 2
      then show ?thesis using ne infer_pip_key[OF al] by simp
    next
      case 3
      then show ?thesis using ne infer_join_key[OF conv] by simp
    next
      case 4
      then have "(n, s) = (replace CHR ''-'' CHR ''_'' (ilk col), gem_symbol (ilk col))"
        using ns infer_flip_key[OF conv] by simp
      then show ?thesis using kc by auto
    qed
  qed
qed

lemma ready_infer_complete:
  assumes r: "round_trip_ready c" and keys: "fst ` set d = fst ` set (address_book c)"
    and kc: "(k, col) \<in> set (collaterals c)"
  shows "(replace CHR ''-'' CHR ''_'' (ilk col), gem_symbol (ilk col))
           \<in> set (infer_collaterals_from_addresses (map fst d))"
proof -
  have col: "col \<in> set (map snd (collaterals c))" using kc by force
  have "(''MCD_FLIP_'' @ replace CHR ''-'' CHR ''_'' (ilk col), address (flipper col))
          \<in> set (address_book c)"
    using col flip_entry by (rule address_book_collateral)
  then have "''MCD_FLIP_'' @ replace CHR ''-'' CHR ''_'' (ilk col) \<in> fst ` set (address_book c)"
    by force
  then have "''MCD_FLIP_'' @ replace CHR ''-'' CHR ''_'' (ilk col) \<in> set (map fst d)"
    using keys by simp
  from infer_subset[OF this] infer_flip_key[OF ready_entry(2)[OF r kc]] show ?thesis by simp
qed

lemma required_keys_cases:
  assumes "k \<in> set (required_keys d)"
  shows "k \<in> set fixed_keys \<or>
         (\<exists>(n, s)\<in>set (infer_collaterals_from_addresses (map fst d)).
            k \<in> {s, ''MCD_JOIN_'' @ n, ''PIP_'' @ s, ''MCD_FLIP_'' @ n})"
  using assms by (auto simp: required_keys_def)

lemma fixed_keys_in_address_book: "set fixed_keys \<subseteq> fst ` set (address_book c)"
proof
  fix k assume "k \<in> set fixed_keys"
  then obtain i where i: "i < length fixed_keys" "fixed_keys ! i = k" by (meson in_set_conv_nth)
  from fixed_in_address_book[OF i(1), of c] show "k \<in> fst ` set (address_book c)"
    unfolding i(2) by force
qed

lemma ready_required:
  assumes r: "round_trip_ready c" and keys: "fst ` set d = fst ` set (address_book c)"
  shows "set (required_keys d) \<subseteq> fst ` set d"
proof
  fix k assume "k \<in> set (required_keys d)"
  from required_keys_cases[OF this] show "k \<in> fst ` set d"
  proof
    assume "k \<in> set fixed_keys"
    then show ?thesis using fixed_keys_in_address_book keys by blast
  next
    assume "\<exists>(n, s)\<in>set (infer_collaterals_from_addresses (map fst d)).
            k \<in> {s, ''MCD_JOIN_'' @ n, ''PIP_'' @ s, ''MCD_FLIP_'' @ n}"
    then obtain n s where ns: "(n, s) \<in> set (infer_collaterals_from_addresses (map fst d))"
      and k: "k \<in> {s, ''MCD_JOIN_'' @ n, ''PIP_'' @ s, ''MCD_FLIP_'' @ n}" by auto
    from ready_infer_sound[OF r keys ns] obtain k0 col where kc: "(k0, col) \<in> set (collaterals c)"
      and n: "n = replace CHR ''-'' CHR ''_'' (ilk col)" and s: "s = gem_symbol (ilk col)" by auto
    from ready_entry(3)[OF r kc] obtain p where p: "pip col = Some p" ..
    have col: "col \<in> set (map snd (collaterals c))" using kc by force
    have "(s, address (gem col)) \<in> set (address_book c)"
      "(''MCD_JOIN_'' @ n, address (adapter col)) \<in> set (address_book c)"
      "(''PIP_'' @ s, address p) \<in> set (address_book c)"
      "(''MCD_FLIP_'' @ n, address (flipper col)) \<in> set (address_book c)"
      unfolding n s
      using address_book_collateral[OF col gem_entry] address_book_collateral[OF col join_entry]
        address_book_collateral[OF col pip_entry[OF p]] address_book_collateral[OF col flip_entry]
      by simp_all
    then have "{s, ''MCD_JOIN_'' @ n, ''PIP_'' @ s, ''MCD_FLIP_'' @ n} \<subseteq> fst ` set (address_book c)"
      by force
    then show ?thesis using k keys by blast
  qed
qed

lemma ready_from_json:
  assumes r: "round_trip_ready c" and keys: "fst ` set d = fst ` set (address_book c)"
  shows "\<exists>c'. from_json web3 d = Inr c'"
proof (cases "from_json web3 d")
  case (Inl e)
  from from_json_Inl_required[OF this] ready_required[OF r keys] show ?thesis by blast
next
  case (Inr c')
  then show ?thesis by blast
qed

lemma lookup_address_book:
  assumes "distinct (map fst d)" and "set d = set (address_book c)"
    and "single_valued (set (address_book c))"
    and "getitem d k = Inr v" and "(k, w) \<in> set (address_book c)"
  shows "v = w"
proof -
  from assms(4) have "map_of d k = Some v" by (simp add: getitem_Inr)
  then have "(k, v) \<in> set d" by (rule map_of_SomeD)
  then have "(k, v) \<in> set (address_book c)" using assms(2) by simp
  with assms(3,5) show ?thesis by (auto simp: single_valued_def)
qed

lemma ready_fixed:
  assumes d: "distinct (map fst d)" "set d = set (address_book c)"
    and sv: "single_valued (set (address_book c))"
    and ok: "from_json web3 d = Inr c'"
  shows "map address (fixed_handles c') = map address (fixed_handles c)"
proof (rule nth_equalityI)
  have l: "length (fixed_handles c) = length fixed_keys" "length (fixed_handles c') = length fixed_keys"
    by (simp_all add: fixed_keys_def fixed_handles_def)
  show "length (map address (fixed_handles c')) = length (map address (fixed_handles c))"
    using l by simp
  fix i assume "i < length (map address (fixed_handles c'))"
  then have i: "i < length fixed_keys" using l by simp
  have "map (getitem d) fixed_keys ! i = map (\<lambda>h. Inr (address h)) (fixed_handles c') ! i"
    using from_json_Inr(1)[OF ok] by simp
  then have "getitem d (fixed_keys ! i) = Inr (address (fixed_handles c' ! i))"
    using i l by simp
  from lookup_address_book[OF d sv this fixed_in_address_book[OF i]]
  show "map address (fixed_handles c') ! i = map address (fixed_handles c) ! i"
    using i l by simp
qed

lemma ready_collateral:
  assumes r: "round_trip_ready c"
    and d: "distinct (map fst d)" "set d = set (address_book c)"
    and ok: "from_json web3 d = Inr c'"
    and kc': "(k, col') \<in> set (collaterals c')"
    and kc: "(k, col) \<in> set (collaterals c)"
  shows "same_addresses col col'"
proof -
  have sv: "single_valued (set (address_book c))" using r by (simp add: round_trip_ready_def)
  have keys: "fst ` set d = fst ` set (address_book c)" using d(2) by simp
  from from_json_loop_mem[OF from_json_Inr(2)[OF ok] kc']
  obtain name where name: "name \<in> set (infer_collaterals_from_addresses (map fst d))"
    and mc: "make_collateral web3 d name = Inr col'" and k: "k = ilk col'" by auto
  obtain n s where ns: "name = (n, s)" by (cases name)
  from ready_infer_sound[OF r keys name[unfolded ns]] obtain k2 col2 where
    kc2: "(k2, col2) \<in> set (collaterals c)"
    and n: "n = replace CHR ''-'' CHR ''_'' (ilk col2)" and s: "s = gem_symbol (ilk col2)" by auto
  note m = make_collateral_Inr[OF mc, unfolded ns fst_conv snd_conv]
  have "ilk col' = replace CHR ''_'' CHR ''-'' n" using m by simp
  also have "\<dots> = ilk col2" unfolding n by (rule conventional_suffix(4)[OF ready_entry(2)[OF r kc2]])
  finally have i: "ilk col' = ilk col2" .
  have "k2 = k" using ready_entry(1)[OF r kc2] i k by simp
  then have "col2 = col" using kc kc2 r
    by (metis eq_key_imp_eq_value round_trip_ready_def)
  then have n': "n = replace CHR ''-'' CHR ''_'' (ilk col)" and s': "s = gem_symbol (ilk col)"
    and i': "ilk col' = ilk col" using n s i by simp_all
  from ready_entry(3)[OF r kc] obtain p where p: "pip col = Some p" ..
  from m obtain p' where p': "pip col' = Some p'"
    and gp: "getitem d (''PIP_'' @ s) = Inr (address p')" by auto
  have c: "col \<in> set (map snd (collaterals c))" using kc by force
  have 1: "address (gem col') = address (gem col)"
    using lookup_address_book[OF d sv _ address_book_collateral[OF c gem_entry]] m s' by simp
  have 2: "address (adapter col') = address (adapter col)"
    using lookup_address_book[OF d sv _ address_book_collateral[OF c join_entry]] m n' by simp
  have 3: "address (flipper col') = address (flipper col)"
    using lookup_address_book[OF d sv _ address_book_collateral[OF c flip_entry]] m n' by simp
  have 4: "address p' = address p"
    using lookup_address_book[OF d sv _ address_book_collateral[OF c pip_entry[OF p]]] gp s'
    by simp
  show ?thesis unfolding same_addresses_def using i' 1 2 3 4 p p' by simp
qed

lemma ready_table_keys:
  assumes r: "round_trip_ready c" and keys: "fst ` set d = fst ` set (address_book c)"
    and ok: "from_json web3 d = Inr c'"
  shows "set (map fst (collaterals c')) = set (map fst (collaterals c))"
proof -
  have t: "set (map fst (collaterals c')) =
      (\<lambda>(n, s). replace CHR ''_'' CHR ''-'' n) ` set (infer_collaterals_from_addresses (map fst d))"
    by (rule from_json_table(2)[OF ok])
  show ?thesis
  proof (intro equalityI subsetI)
    fix k assume "k \<in> set (map fst (collaterals c'))"
    then obtain n s where ns: "(n, s) \<in> set (infer_collaterals_from_addresses (map fst d))"
      and k: "k = replace CHR ''_'' CHR ''-'' n" unfolding t by auto
    from ready_infer_sound[OF r keys ns] obtain k0 col where kc: "(k0, col) \<in> set (collaterals c)"
      and n: "n = replace CHR ''-'' CHR ''_'' (ilk col)" by auto
    have "k = ilk col" unfolding k n by (rule conventional_suffix(4)[OF ready_entry(2)[OF r kc]])
    then have "k = k0" using ready_entry(1)[OF r kc] by simp
    then show "k \<in> set (map fst (collaterals c))" using kc by force
  next
    fix k assume "k \<in> set (map fst (collaterals c))"
    then obtain col where kc: "(k, col) \<in> set (collaterals c)" by auto
    have "replace CHR ''_'' CHR ''-'' (replace CHR ''-'' CHR ''_'' (ilk col)) = ilk col"
      by (rule conventional_suffix(4)[OF ready_entry(2)[OF r kc]])
    then have "k = (\<lambda>(n, s). replace CHR ''_'' CHR ''-'' n)
        (replace CHR ''-'' CHR ''_'' (ilk col), gem_symbol (ilk col))"
      using ready_entry(1)[OF r kc] by simp
    then show "k \<in> set (map fst (collaterals c'))"
      unfolding t using ready_infer_complete[OF r keys kc] by blast
  qed
qed

lemma ready_round_trip:
  assumes r: "round_trip_ready c"
  shows "\<exists>d c'. to_json c = Inr d \<and> from_json web3 d = Inr c' \<and> equivalent c c'"
proof -
  have sv: "single_valued (set (address_book c))" using r by (simp add: round_trip_ready_def)
  from to_dict_set[OF ready_names[OF r] sv] obtain d where td: "to_dict c = Inr d"
    and d: "distinct (map fst d)" "set d = set (address_book c)" by blast
  have keys: "fst ` set d = fst ` set (address_book c)" using d(2) by simp
  from ready_from_json[OF r keys] obtain c' where ok: "from_json web3 d = Inr c'" ..
  have tk: "set (map fst (collaterals c')) = set (map fst (collaterals c))"
    by (rule ready_table_keys[OF r keys ok])
  have "list_all (\<lambda>(k, col). case map_of (collaterals c') k of
                               None \<Rightarrow> False
                             | Some col' \<Rightarrow> same_addresses col col') (collaterals c)"
    unfolding list_all_iff
  proof (clarify)
    fix k col assume kc: "(k, col) \<in> set (collaterals c)"
    then have "k \<in> set (map fst (collaterals c'))" unfolding tk by force
    then obtain col' where kc': "(k, col') \<in> set (collaterals c')" by auto
    then have "map_of (collaterals c') k = Some col'"
      using from_json_table(1)[OF ok] by simp
    moreover have "same_addresses col col'" by (rule ready_collateral[OF r d ok kc' kc])
    ultimately show "case map_of (collaterals c') k of
                               None \<Rightarrow> False
                             | Some col' \<Rightarrow> same_addresses col col'" by simp
  qed
  with ready_fixed[OF d sv ok] tk have "equivalent c c'" by (simp add: equivalent_def)
  with td ok show ?thesis unfolding to_json_def by blast
qed

text \<open>
  Claim C1, as stated, fails for a configuration with a collateral that has no price
  feed: \<^verbatim>\<open>to_dict\<close> leaves \<open>PIP_ETH\<close> out and \<^verbatim>\<open>from_json\<close> raises \<^verbatim>\<open>KeyError\<close>.
\<close>

theorem to_json_from_json_round_trip_counterexample:
  "bind (to_json pipless_config) (from_json example_web3) = Inl (KeyError ''PIP_ETH'')"
  by code_simp

text \<open>
  Claim C1, amended. For every configuration whose table is keyed by the ilk names, whose
  ilk names follow the convention (a symbol of letters and digits, alone or followed by a
  hyphen and a sub-type of letters and digits), whose collaterals all have a price feed
  and whose address book gives no key two different addresses, \<^verbatim>\<open>to_json\<close> followed by
  \<^verbatim>\<open>from_json\<close> over any node reconstructs an equivalent configuration: every fixed handle
  has the same address, and the table has the same ilk names, each standing for a
  collateral with the same gem, adapter, price-feed and flipper addresses.
\<close>

theorem to_json_from_json_round_trip:
  assumes "round_trip_ready c"
  shows "\<exists>d c'. to_json c = Inr d \<and> from_json web3 d = Inr c' \<and> equivalent c c'"
  using ready_round_trip[OF assms] .

theorem to_json_from_json_round_trip_witness:
  "round_trip_ready example_config \<and>
   to_json example_config = Inr example_book \<and>
   from_json example_web3 example_book = Inr example_config \<and>
   equivalent example_config example_config"
proof -
  have "distinct (map fst (address_book example_config))" by code_simp
  then have "single_valued (set (address_book example_config))" by (rule distinct_single_valued)
  moreover have "distinct (map fst (collaterals example_config))" by code_simp
  moreover have "list_all (\<lambda>(k, col). k = ilk col \<and> conventional_ilk (ilk col) \<and> pip col \<noteq> None)
        (collaterals example_config)" by code_simp
  ultimately have a: "round_trip_ready example_config" by (simp add: round_trip_ready_def)
  have b: "to_json example_config = Inr example_book" by code_simp
  have c: "from_json example_web3 example_book = Inr example_config" by (rule example_from_json)
  from to_json_from_json_round_trip[OF a, of example_web3] b c
  have "equivalent example_config example_config" by simp
  with a b c show ?thesis by simp
qed

section \<open>The renaming of ilk names\<close>










end
